theory Spec2Isabelle
  imports Main "HOL-Library.AList"
begin

section \<open>Event Bus (src/js/services/eventBus.js)\<close>

subsection \<open>Values, exceptions and the state of the bus\<close>

text \<open>
  The values that reach the bus as a callback argument. A JavaScript function is a value
  with an identity (\<open>indexOf\<close> compares with \<open>===\<close>): \<open>Fn k\<close> is the user function
  with identity \<open>k\<close>. \<open>OnceWrapper k eventName callback\<close> is the closure that
  \<open>once\<close> creates: \<open>k\<close> is its identity, \<open>eventName\<close> and \<open>callback\<close> are the
  variables it captures. \<open>NotFn\<close> stands for every value whose \<open>typeof\<close> is not
  \<open>'function'\<close>.
\<close>

datatype jsval = Fn nat | OnceWrapper nat string jsval | NotFn

fun is_function :: "jsval \<Rightarrow> bool" where
  "is_function (Fn k) = True"
| "is_function (OnceWrapper k eventName callback) = True"
| "is_function NotFn = False"

text \<open>An exception object: an \<open>Error\<close> or a \<open>TypeError\<close>, with its message.\<close>

datatype exn = JsError string | TypeError string

fun message :: "exn \<Rightarrow> string" where
  "message (JsError m) = m"
| "message (TypeError m) = m"

datatype console_entry = Warn string | Err string | Log string

text \<open>
  The fields of the class are \<open>events\<close> (a Map from event name to the array of
  listeners) and \<open>maxListeners\<close>. The state also carries the browser console, which
  \<open>on\<close> and \<open>emit\<close> write to, and the number of closures created so far, from which
  \<open>once\<close> takes the identity of a new wrapper.
\<close>

record EventBus =
  events :: "string \<rightharpoonup> jsval list"
  maxListeners :: nat
  console :: "console_entry list"
  closures :: nat

definition new_EventBus :: EventBus where
  "new_EventBus = \<lparr>events = Map.empty, maxListeners = 50, console = [], closures = 0\<rparr>"

subsection \<open>Array helpers\<close>

text \<open>\<open>Array.prototype.indexOf\<close>: the first index holding the value, or -1.\<close>

fun indexOf :: "'a list \<Rightarrow> 'a \<Rightarrow> int" where
  "indexOf [] x = -1"
| "indexOf (y # ys) x =
     (if y = x then 0 else (let i = indexOf ys x in if i > -1 then i + 1 else -1))"

text \<open>\<open>listeners.splice(index, 1)\<close> for an index inside the array.\<close>

definition splice1 :: "'a list \<Rightarrow> nat \<Rightarrow> 'a list" where
  "splice1 xs i = take i xs @ drop (Suc i) xs"

subsection \<open>on, once, off\<close>

definition on :: "EventBus \<Rightarrow> string \<Rightarrow> jsval \<Rightarrow> (exn + bool) \<times> EventBus" where
  "on b eventName callback =
     (if \<not> is_function callback then (Inl (JsError ''Callback must be a function''), b)
      else
        let b1 = (if events b eventName = None
                  then b\<lparr>events := (events b)(eventName \<mapsto> [])\<rparr> else b);
            listeners = (case events b1 eventName of Some ls \<Rightarrow> ls | None \<Rightarrow> [])
        in if length listeners \<ge> maxListeners b1
           then (Inr False, b1\<lparr>console := console b1 @ [Warn eventName]\<rparr>)
           else (Inr True, b1\<lparr>events := (events b1)(eventName \<mapsto> listeners @ [callback])\<rparr>))"

definition once :: "EventBus \<Rightarrow> string \<Rightarrow> jsval \<Rightarrow> (exn + bool) \<times> EventBus" where
  "once b eventName callback =
     (let onceWrapper = OnceWrapper (closures b) eventName callback
      in on (b\<lparr>closures := Suc (closures b)\<rparr>) eventName onceWrapper)"

definition off :: "EventBus \<Rightarrow> string \<Rightarrow> jsval \<Rightarrow> bool \<times> EventBus" where
  "off b eventName callback =
     (case events b eventName of
        None \<Rightarrow> (False, b)
      | Some listeners \<Rightarrow>
          (let index = indexOf listeners callback
           in if index > -1
              then (let listeners' = splice1 listeners (nat index)
                    in (True,
                        if length listeners' = 0
                        then b\<lparr>events := (events b)(eventName := None)\<rparr>
                        else b\<lparr>events := (events b)(eventName \<mapsto> listeners')\<rparr>))
              else (False, b)))"

definition listenerCount :: "EventBus \<Rightarrow> string \<Rightarrow> nat" where
  "listenerCount b eventName =
     (case events b eventName of None \<Rightarrow> 0 | Some listeners \<Rightarrow> length listeners)"

text \<open>The array registered for an event name, empty when the name is not in the Map.\<close>

definition listeners_of :: "EventBus \<Rightarrow> string \<Rightarrow> jsval list" where
  "listeners_of b eventName =
     (case events b eventName of None \<Rightarrow> [] | Some listeners \<Rightarrow> listeners)"

subsection \<open>Calling a listener\<close>

text \<open>
  What a user function does when it is called is a parameter of the model: \<open>beh k args b\<close>
  is the bus after the function with identity \<open>k\<close> has run on \<open>args\<close> from the bus \<open>b\<close>
  (it may call \<open>on\<close>, \<open>off\<close>, \<open>once\<close> and \<open>emit\<close>, and write to the console), together
  with \<open>None\<close> when it returns and \<open>Some e\<close> when it throws \<open>e\<close>.

  The wrapper of \<open>once\<close> calls the callback it captured and then \<open>this.off(eventName,
  onceWrapper)\<close>; when the callback throws, the statement after it is not reached. Calling
  a value that is not a function throws a TypeError.
\<close>

type_synonym 'a behaviour = "nat \<Rightarrow> 'a list \<Rightarrow> EventBus \<Rightarrow> exn option \<times> EventBus"

fun call :: "'a behaviour \<Rightarrow> jsval \<Rightarrow> 'a list \<Rightarrow> EventBus \<Rightarrow> exn option \<times> EventBus" where
  "call beh (Fn k) args b = beh k args b"
| "call beh (OnceWrapper k eventName callback) args b =
     (case call beh callback args b of
        (Some e, b') \<Rightarrow> (Some e, b')
      | (None, b') \<Rightarrow> (None, snd (off b' eventName (OnceWrapper k eventName callback))))"
| "call beh NotFn args b = (Some (TypeError ''callback is not a function''), b)"

subsection \<open>emit\<close>

text \<open>
  The loop \<open>listenersCopy.forEach\<close> with its try/catch: a callback that returns adds one
  to \<open>successCount\<close>, a callback that throws is caught and reported with
  \<open>console.error\<close>. Besides the bus and \<open>successCount\<close> the function returns, for the
  statements below, the record of what the loop did: each callback it invoked, in order,
  with \<open>True\<close> when the callback returned and \<open>False\<close> when it threw.
\<close>

fun forEach_listener ::
    "'a behaviour \<Rightarrow> string \<Rightarrow> 'a list \<Rightarrow> jsval list \<Rightarrow> EventBus \<Rightarrow> nat
      \<Rightarrow> EventBus \<times> nat \<times> (jsval \<times> bool) list" where
  "forEach_listener beh eventName args [] b successCount = (b, successCount, [])"
| "forEach_listener beh eventName args (callback # rest) b successCount =
     (case call beh callback args b of
        (None, b') \<Rightarrow>
          (case forEach_listener beh eventName args rest b' (successCount + 1) of
             (b'', n, calls) \<Rightarrow> (b'', n, (callback, True) # calls))
      | (Some error, b') \<Rightarrow>
          (case forEach_listener beh eventName args rest
                  (b'\<lparr>console := console b' @ [Err eventName]\<rparr>) successCount of
             (b'', n, calls) \<Rightarrow> (b'', n, (callback, False) # calls)))"

record emit_result =
  returned :: bool
  bus_after :: EventBus
  invoked :: "(jsval \<times> bool) list"

definition emit :: "'a behaviour \<Rightarrow> EventBus \<Rightarrow> string \<Rightarrow> 'a list \<Rightarrow> emit_result" where
  "emit beh b eventName args =
     (case events b eventName of
        None \<Rightarrow> \<lparr>returned = False, bus_after = b, invoked = []\<rparr>
      | Some listeners \<Rightarrow>
          (let listenersCopy = listeners
           in case forEach_listener beh eventName args listenersCopy b 0 of
                (b', successCount, calls) \<Rightarrow>
                  \<lparr>returned = successCount > 0, bus_after = b', invoked = calls\<rparr>))"

subsection \<open>Sequences of registrations\<close>

datatype registration = On string jsval | Once string jsval

text \<open>One registration, made by a caller that catches what it throws.\<close>

fun register :: "EventBus \<Rightarrow> registration \<Rightarrow> EventBus" where
  "register b (On eventName callback) = snd (on b eventName callback)"
| "register b (Once eventName callback) = snd (once b eventName callback)"

subsection \<open>What an emission is expected to do\<close>

text \<open>
  The statements about \<open>emit\<close> compare it with calling the listeners one after the
  other. \<open>after_listener\<close> is the bus after one listener has been called inside the
  try/catch: the bus the call leaves, with an error entry on the console when the call
  threw. \<open>listener_outcomes\<close> calls the listeners of a list in order, each on the bus
  the earlier ones left, and pairs each with whether its call returned.
\<close>

definition after_listener ::
    "'a behaviour \<Rightarrow> string \<Rightarrow> 'a list \<Rightarrow> EventBus \<Rightarrow> jsval \<Rightarrow> EventBus" where
  "after_listener beh eventName args b callback =
     (case call beh callback args b of
        (None, b') \<Rightarrow> b'
      | (Some error, b') \<Rightarrow> b'\<lparr>console := console b' @ [Err eventName]\<rparr>)"

fun listener_outcomes ::
    "'a behaviour \<Rightarrow> string \<Rightarrow> 'a list \<Rightarrow> jsval list \<Rightarrow> EventBus \<Rightarrow> (jsval \<times> bool) list" where
  "listener_outcomes beh eventName args [] b = []"
| "listener_outcomes beh eventName args (callback # rest) b =
     (callback, fst (call beh callback args b) = None) #
       listener_outcomes beh eventName args rest (after_listener beh eventName args b callback)"

text \<open>
  The functions that run when the bus calls a listener: the listener itself and, for a
  wrapper of \<open>once\<close>, the callback it captured (and so on, should that be a wrapper).
\<close>

fun functions_in :: "jsval \<Rightarrow> jsval list" where
  "functions_in (Fn k) = [Fn k]"
| "functions_in (OnceWrapper k eventName callback) =
     OnceWrapper k eventName callback # functions_in callback"
| "functions_in NotFn = []"

text \<open>
  The user function with identity \<open>j\<close> is registered nowhere on the bus: it is no
  listener of any event name and no wrapper among the listeners captured it.
\<close>

definition registered_nowhere :: "nat \<Rightarrow> EventBus \<Rightarrow> bool" where
  "registered_nowhere j b =
     (\<forall>eventName. \<forall>l \<in> set (listeners_of b eventName). Fn j \<notin> set (functions_in l))"

text \<open>
  The calls a program makes on the bus, one after the other; an exception of \<open>on\<close>
  is caught by the caller.
\<close>

datatype 'a bus_call =
    CallOn string jsval
  | CallOnce string jsval
  | CallOff string jsval
  | CallEmit string "'a list"

fun bus_step :: "'a behaviour \<Rightarrow> EventBus \<Rightarrow> 'a bus_call \<Rightarrow> EventBus" where
  "bus_step beh b (CallOn eventName callback) = snd (on b eventName callback)"
| "bus_step beh b (CallOnce eventName callback) = snd (once b eventName callback)"
| "bus_step beh b (CallOff eventName callback) = snd (off b eventName callback)"
| "bus_step beh b (CallEmit eventName args) = bus_after (emit beh b eventName args)"

text \<open>Whether a call registers the user function with identity \<open>j\<close>.\<close>

fun registers :: "nat \<Rightarrow> 'a bus_call \<Rightarrow> bool" where
  "registers j (CallOn eventName callback) = (Fn j \<in> set (functions_in callback))"
| "registers j (CallOnce eventName callback) = (Fn j \<in> set (functions_in callback))"
| "registers j (CallOff eventName callback) = False"
| "registers j (CallEmit eventName args) = False"

subsection \<open>Concrete listeners used in the examples\<close>

text \<open>A bus with the listeners \<open>Fn 0\<close> and \<open>Fn 1\<close> subscribed to \<open>e\<close>, in this order.\<close>

definition bus_AB :: EventBus where
  "bus_AB = snd (on (snd (on new_EventBus ''e'' (Fn 0))) ''e'' (Fn 1))"

text \<open>A bus on which \<open>Fn 0\<close> has subscribed to \<open>e\<close> twice.\<close>

definition bus_AA :: EventBus where
  "bus_AA = snd (on (snd (on new_EventBus ''e'' (Fn 0))) ''e'' (Fn 0))"

text \<open>
  \<open>Fn 0\<close> unsubscribes \<open>Fn 1\<close> and logs what \<open>off\<close> returned; every other function
  logs that it was invoked.
  \<^verbatim>\<open>
  const A = () => console.log(bus.off('e', B) ? 'off(e, Fn 1) returned true'
                                              : 'off(e, Fn 1) returned false');
  const B = () => console.log('invoked');
  \<close>
\<close>

definition beh_unsubscriber :: "unit behaviour" where
  "beh_unsubscriber k args b =
     (if k = 0
      then (case off b ''e'' (Fn 1) of
              (r, b') \<Rightarrow>
                (None, b'\<lparr>console := console b' @
                   [Log (if r then ''off(e, Fn 1) returned true''
                         else ''off(e, Fn 1) returned false'')]\<rparr>))
      else (None, b\<lparr>console := console b @ [Log ''invoked'']\<rparr>))"

text \<open>
  Every function logs that it was invoked and then throws.
  \<^verbatim>\<open>const f = () => { console.log('invoked'); throw new Error('boom'); };\<close>
\<close>

definition beh_throwing :: "unit behaviour" where
  "beh_throwing k args b =
     (Some (JsError ''boom''), b\<lparr>console := console b @ [Log ''invoked'']\<rparr>)"

text \<open>
  \<open>Fn 0\<close> logs that it was invoked and throws; every other function logs that it was
  invoked and returns.
\<close>

definition beh_first_throws :: "unit behaviour" where
  "beh_first_throws k args b =
     (if k = 0 then Some (JsError ''boom'') else None,
      b\<lparr>console := console b @ [Log ''invoked'']\<rparr>)"

text \<open>Every function logs that it was invoked and returns.\<close>

definition beh_logging :: "unit behaviour" where
  "beh_logging k args b = (None, b\<lparr>console := console b @ [Log ''invoked'']\<rparr>)"

text \<open>
  The functions of \<open>beh\<close>, except that the function with identity \<open>j\<close> logs that it
  was invoked and throws.
\<close>

definition thrower_at :: "nat \<Rightarrow> unit behaviour \<Rightarrow> unit behaviour" where
  "thrower_at j beh k = (if k = j then beh_throwing k else beh k)"

text \<open>The bus after fifty functions have subscribed to \<open>e\<close>.\<close>

definition bus_full :: EventBus where
  "bus_full = foldl register new_EventBus (map (\<lambda>k. On ''e'' (Fn k)) [0..<50])"

section \<open>Auto-refresh coordinator (src/js/services/realtime.js)\<close>

text \<open>
  The fields of the class are \<open>intervals\<close> (a Map from widget name to timer id, kept
  in insertion order), \<open>isOnline\<close> and \<open>refreshRates\<close> (an object, given by its
  entries in the order of \<open>Object.entries\<close>; its keys are distinct). The state also
  carries the timers of the host: \<open>liveTimers\<close> holds, for every interval timer that
  was set and not cleared, its id, the widget name its callback requests a refresh for,
  and its period in milliseconds; \<open>timerCount\<close> is the number of timers set so far.
  The host hands out the ids 1, 2, 3, ..., so a recorded id is never falsy. The console
  messages of this class are left out.
\<close>

record RealtimeService =
  intervals :: "(string \<times> nat) list"
  isOnline :: bool
  refreshRates :: "(string \<times> int) list"
  liveTimers :: "(nat \<times> string \<times> int) list"
  timerCount :: nat

definition new_RealtimeService :: "bool \<Rightarrow> RealtimeService" where
  "new_RealtimeService online =
     \<lparr>intervals = [], isOnline = online,
      refreshRates = [(''announcements'', 600000), (''tasks'', 300000),
                      (''calendar'', 600000), (''tickets'', 300000), (''shortcuts'', 0)],
      liveTimers = [], timerCount = 0\<rparr>"

definition setInterval :: "RealtimeService \<Rightarrow> string \<Rightarrow> int \<Rightarrow> nat \<times> RealtimeService" where
  "setInterval s widgetName interval =
     (let intervalId = Suc (timerCount s)
      in (intervalId,
          s\<lparr>liveTimers := liveTimers s @ [(intervalId, widgetName, interval)],
            timerCount := intervalId\<rparr>))"

definition clearInterval :: "RealtimeService \<Rightarrow> nat \<Rightarrow> RealtimeService" where
  "clearInterval s intervalId =
     s\<lparr>liveTimers := filter (\<lambda>t. fst t \<noteq> intervalId) (liveTimers s)\<rparr>"

definition stopWidgetRefresh :: "RealtimeService \<Rightarrow> string \<Rightarrow> RealtimeService" where
  "stopWidgetRefresh s widgetName =
     (case map_of (intervals s) widgetName of
        None \<Rightarrow> s
      | Some intervalId \<Rightarrow>
          (let s1 = clearInterval s intervalId
           in s1\<lparr>intervals := AList.delete widgetName (intervals s1)\<rparr>))"

definition startWidgetRefresh :: "RealtimeService \<Rightarrow> string \<Rightarrow> int \<Rightarrow> RealtimeService" where
  "startWidgetRefresh s widgetName interval =
     (let s1 = stopWidgetRefresh s widgetName
      in if \<not> isOnline s1 \<or> interval \<le> 0 then s1
         else (case setInterval s1 widgetName interval of
                 (intervalId, s2) \<Rightarrow>
                   s2\<lparr>intervals := AList.update widgetName intervalId (intervals s2)\<rparr>))"

text \<open>The body of the loop of \<open>startAutoRefresh\<close>, for one entry of \<open>refreshRates\<close>.\<close>

definition start_step :: "RealtimeService \<Rightarrow> string \<times> int \<Rightarrow> RealtimeService" where
  "start_step s' entry =
     (case entry of (widget, interval) \<Rightarrow>
        if interval > 0 then startWidgetRefresh s' widget interval else s')"

definition startAutoRefresh :: "RealtimeService \<Rightarrow> RealtimeService" where
  "startAutoRefresh s = foldl start_step s (refreshRates s)"

definition pauseAutoRefresh :: "RealtimeService \<Rightarrow> RealtimeService" where
  "pauseAutoRefresh s =
     foldl (\<lambda>s' (widgetName, intervalId). clearInterval s' intervalId) s (intervals s)"

definition resumeAutoRefresh :: "RealtimeService \<Rightarrow> RealtimeService" where
  "resumeAutoRefresh s = startAutoRefresh (s\<lparr>intervals := []\<rparr>)"

text \<open>The active per-widget timers: the widget name and period of every live timer.\<close>

definition active_timers :: "RealtimeService \<Rightarrow> (string \<times> int) set" where
  "active_timers s = set (map snd (liveTimers s))"

text \<open>The timers the configuration asks for: one for every entry with a positive rate.\<close>

definition configured_timers :: "RealtimeService \<Rightarrow> (string \<times> int) list" where
  "configured_timers s = filter (\<lambda>r. snd r > 0) (refreshRates s)"

text \<open>
  The service after \<open>init\<close> has started every timer and the timer of the tasks widget
  has been stopped with \<open>stopWidgetRefresh('tasks')\<close>.
\<close>

definition rt_tasks_stopped :: RealtimeService where
  "rt_tasks_stopped = stopWidgetRefresh (startAutoRefresh (new_RealtimeService True)) ''tasks''"

section \<open>Storage gateway (StorageService)\<close>

text \<open>
  The values \<open>JSON.stringify\<close> accepts. \<open>truthy\<close> is JavaScript's conversion to a
  boolean, which \<open>||\<close> and \<open>?:\<close> apply: \<open>null\<close>, \<open>false\<close>, \<open>0\<close> and the empty
  string are falsy, every array and object is truthy.
\<close>

datatype json = JNull | JBool bool | JNum int | JStr string
  | JArr "json list" | JObj "(string \<times> json) list"

fun truthy :: "json \<Rightarrow> bool" where
  "truthy JNull = False"
| "truthy (JBool v) = v"
| "truthy (JNum n) = (n \<noteq> 0)"
| "truthy (JStr s) = (s \<noteq> [])"
| "truthy (JArr vs) = True"
| "truthy (JObj ps) = True"

text \<open>
  The built-ins of the browser the class calls are parameters: \<open>stringify\<close> is
  \<open>JSON.stringify\<close>, \<open>parse\<close> is \<open>JSON.parse\<close> (\<open>None\<close> when it throws a
  SyntaxError), and \<open>accepts k v\<close> tells whether \<open>localStorage.setItem(k, v)\<close> stores
  the value (it throws otherwise, as when the quota is exceeded).
\<close>

record host =
  stringify :: "json \<Rightarrow> string"
  parse :: "string \<Rightarrow> json option"
  accepts :: "string \<Rightarrow> string \<Rightarrow> bool"

text \<open>
  The fields of the class, the browser's \<open>localStorage\<close> and the console.
\<close>

record StorageService =
  isLocalStorageAvailable :: bool
  memoryStorage :: "string \<rightharpoonup> json"
  prefix :: string
  localStorage :: "string \<rightharpoonup> string"
  storageConsole :: "console_entry list"

definition getItem :: "host \<Rightarrow> StorageService \<Rightarrow> string \<Rightarrow> json \<times> StorageService" where
  "getItem h s key =
     (let fullKey = prefix s @ key
      in if isLocalStorageAvailable s
         then (case localStorage s fullKey of
                 None \<Rightarrow> (JNull, s)
               | Some item \<Rightarrow>
                   if item = [] then (JNull, s)
                   else (case parse h item of
                           Some v \<Rightarrow> (v, s)
                         | None \<Rightarrow>
                             (JNull, s\<lparr>storageConsole := storageConsole s @
                                [Err ''Error getting item from storage:'']\<rparr>)))
         else (case memoryStorage s fullKey of
                 None \<Rightarrow> (JNull, s)
               | Some v \<Rightarrow> (if truthy v then v else JNull, s)))"

definition setItem :: "host \<Rightarrow> StorageService \<Rightarrow> string \<Rightarrow> json \<Rightarrow> bool \<times> StorageService" where
  "setItem h s key v =
     (let fullKey = prefix s @ key
      in if isLocalStorageAvailable s
         then (if accepts h fullKey (stringify h v)
               then (True, s\<lparr>localStorage := (localStorage s)(fullKey \<mapsto> stringify h v)\<rparr>)
               else (False, s\<lparr>storageConsole := storageConsole s @
                       [Err ''Error setting item in storage:'']\<rparr>))
         else (True, s\<lparr>memoryStorage := (memoryStorage s)(fullKey \<mapsto> v)\<rparr>))"

text \<open>The service as its constructor leaves it, by the result of the availability check.\<close>

definition new_StorageService :: "bool \<Rightarrow> (string \<rightharpoonup> string) \<Rightarrow> StorageService" where
  "new_StorageService available store =
     \<lparr>isLocalStorageAvailable = available, memoryStorage = Map.empty,
      prefix = ''dashboard_'', localStorage = store, storageConsole = []\<rparr>"

section \<open>Widget lifecycle (src/js/widgets/baseWidget.js)\<close>

subsection \<open>The container element and the widget\<close>

text \<open>
  What the children of the container element show: nothing, the markup a subclass
  rendered, the error panel of \<open>showErrorState\<close> (its message, with the retry button),
  or the placeholder of \<open>showEmptyState\<close>. The loading overlays that
  \<open>services.loading.showElementLoading\<close> appends are children too: \<open>overlays\<close> counts
  them. Assigning \<open>innerHTML\<close> replaces every child, overlays included.
  \<open>retryListeners\<close> counts the listeners for \<open>retry\<close> added to the element.
\<close>

datatype content = Blank | Markup string | ErrorPanel string | EmptyPanel string

record element =
  classList :: "string list"
  content :: content
  overlays :: nat
  retryListeners :: nat

definition classList_add :: "string list \<Rightarrow> string \<Rightarrow> string list" where
  "classList_add cl c = (if c \<in> set cl then cl else cl @ [c])"

definition set_innerHTML :: "element \<Rightarrow> content \<Rightarrow> element" where
  "set_innerHTML el c = el\<lparr>content := c, overlays := 0\<rparr>"

text \<open>
  What a statement throws or a promise rejects with: an error object, \<open>null\<close> or
  \<open>undefined\<close>, or any other value (a string, a number, an object without a
  \<open>message\<close>). \<open>message_of\<close> is the expression \<open>error.message\<close>: it throws a
  TypeError on \<open>null\<close> and \<open>undefined\<close>, and is \<open>undefined\<close>, which is falsy as
  the empty string is, on a value without the property.
\<close>

datatype thrown = ErrorObject exn | Nullish | OtherValue

fun message_of :: "thrown \<Rightarrow> thrown + string" where
  "message_of (ErrorObject e) = Inr (message e)"
| "message_of Nullish =
     Inl (ErrorObject (TypeError ''Cannot read properties of null (reading message)''))"
| "message_of OtherValue = Inr []"

text \<open>What the widget does to the world outside it, in the order it does it.\<close>

datatype effect =
    ConsoleLog string
  | ConsoleError string
  | SetLoadingState bool
  | LoadDataCalled
  | LoadDataSettled
  | Published string string "thrown option"

text \<open>
  The fields of the class (\<open>className\<close> is \<open>this.constructor.name\<close>, \<open>container\<close>
  is \<open>None\<close> when it is null, \<open>refreshInterval\<close> is \<open>None\<close> when it is null), the
  interval timers of the host that are live (ids 1, 2, 3, ..., never falsy), and the
  effects so far. \<open>services.eventBus.emit\<close> never throws; each call is recorded as
  \<open>Published\<close>.
\<close>

record BaseWidget =
  className :: string
  container :: "element option"
  isInitialized :: bool
  isLoading :: bool
  refreshInterval :: "nat option"
  autoRefreshEnabled :: bool
  refreshIntervalMs :: int
  widgetTimers :: "nat list"
  widgetTimerCount :: nat
  trace :: "effect list"

definition new_BaseWidget :: "string \<Rightarrow> element option \<Rightarrow> BaseWidget" where
  "new_BaseWidget n c =
     \<lparr>className = n, container = c, isInitialized = False, isLoading = False,
      refreshInterval = None, autoRefreshEnabled = True, refreshIntervalMs = 300000,
      widgetTimers = [], widgetTimerCount = 0, trace = []\<rparr>"

text \<open>
  \<open>loadData\<close> and \<open>render\<close> are abstract in the base class. The model takes what they
  do as a parameter: how the promise of \<open>loadData\<close> settles, and whether \<open>render\<close>
  assigns markup to \<open>container.innerHTML\<close> or throws.
\<close>

datatype settle = Resolved | Rejected thrown

datatype render_outcome = Renders string | RenderThrows thrown

subsection \<open>setLoadingState, showErrorState, handleError\<close>

definition setLoadingState :: "BaseWidget \<Rightarrow> bool \<Rightarrow> thrown option \<times> BaseWidget" where
  "setLoadingState w v =
     (let w1 = w\<lparr>isLoading := v, trace := trace w @ [SetLoadingState v]\<rparr>
      in case container w1 of
           None \<Rightarrow> (Some (ErrorObject (TypeError ''container is null'')), w1)
         | Some el \<Rightarrow>
             if v
             then (None, w1\<lparr>container := Some (el\<lparr>classList := classList_add (classList el) ''widget--loading'',
                                                    overlays := Suc (overlays el)\<rparr>)\<rparr>)
             else (None, w1\<lparr>container := Some (el\<lparr>classList := removeAll ''widget--loading'' (classList el),
                                                    overlays := 0\<rparr>)\<rparr>))"

definition showErrorState :: "BaseWidget \<Rightarrow> string \<Rightarrow> thrown option \<times> BaseWidget" where
  "showErrorState w msg =
     (case container w of
        None \<Rightarrow> (Some (ErrorObject (TypeError ''container is null'')), w)
      | Some el \<Rightarrow>
          (let el1 = set_innerHTML el (ErrorPanel msg)
           in (None, w\<lparr>container := Some (el1\<lparr>retryListeners := Suc (retryListeners el1)\<rparr>)\<rparr>)))"

definition handleError :: "BaseWidget \<Rightarrow> thrown \<Rightarrow> thrown option \<times> BaseWidget" where
  "handleError w error =
     (let w1 = w\<lparr>trace := trace w @ [ConsoleError (''Error in '' @ className w @ '':'')]\<rparr>;
          w2 = w1\<lparr>trace := trace w1 @ [Published ''widget:error'' (className w1) (Some error)]\<rparr>
      in case message_of error of
           Inl typeError \<Rightarrow> (Some typeError, w2)
         | Inr m \<Rightarrow>
             showErrorState w2
               (if m \<noteq> [] then m else ''An error occurred while loading data''))"

subsection \<open>refresh\<close>

text \<open>
  The \<open>catch\<close> and \<open>finally\<close> blocks of \<open>refresh\<close>, applied to the outcome of the
  \<open>try\<close> block: an exception of the block goes to \<open>handleError\<close>, then
  \<open>setLoadingState(false)\<close> runs in every case. The promise of \<open>refresh\<close> rejects
  with what \<open>finally\<close> throws, or else with what \<open>catch\<close> throws.
\<close>

definition catch_finally :: "thrown option \<times> BaseWidget \<Rightarrow> thrown option \<times> BaseWidget" where
  "catch_finally tried =
     (case tried of (caught, w) \<Rightarrow>
        (case (case caught of None \<Rightarrow> (None, w) | Some error \<Rightarrow> handleError w error) of
           (r1, w1) \<Rightarrow>
             (case setLoadingState w1 False of
                (r2, w2) \<Rightarrow> (if r2 \<noteq> None then r2 else r1, w2))))"

text \<open>
  \<open>refresh\<close> up to \<open>await this.loadData()\<close>. The first component tells whether the
  call is suspended at the \<open>await\<close>, with \<open>loadData\<close> called; when it is not, the
  call is over, and the second component is the exception it rejects with, if any.
\<close>

definition refresh_begin :: "BaseWidget \<Rightarrow> bool \<times> thrown option \<times> BaseWidget" where
  "refresh_begin w =
     (if isLoading w
      then (False, None,
            w\<lparr>trace := trace w @ [ConsoleLog (className w @ '' is already loading, skipping refresh'')]\<rparr>)
      else (case setLoadingState w True of
              (Some error, w1) \<Rightarrow>
                (case catch_finally (Some error, w1) of (r, w2) \<Rightarrow> (False, r, w2))
            | (None, w1) \<Rightarrow> (True, None, w1\<lparr>trace := trace w1 @ [LoadDataCalled]\<rparr>)))"

text \<open>The subclass's \<open>render\<close>, which assigns to \<open>this.container.innerHTML\<close>.\<close>

definition render :: "render_outcome \<Rightarrow> BaseWidget \<Rightarrow> thrown option \<times> BaseWidget" where
  "render r w =
     (case r of
        RenderThrows error \<Rightarrow> (Some error, w)
      | Renders markup \<Rightarrow>
          (case container w of
             None \<Rightarrow> (Some (ErrorObject (TypeError ''container is null'')), w)
           | Some el \<Rightarrow> (None, w\<lparr>container := Some (set_innerHTML el (Markup markup))\<rparr>)))"

text \<open>\<open>refresh\<close> from the moment the promise of \<open>loadData\<close> settles.\<close>

definition refresh_resume ::
    "render_outcome \<Rightarrow> BaseWidget \<Rightarrow> settle \<Rightarrow> thrown option \<times> BaseWidget" where
  "refresh_resume r w outcome =
     (let w1 = w\<lparr>trace := trace w @ [LoadDataSettled]\<rparr>
      in catch_finally
           (case outcome of
              Rejected error \<Rightarrow> (Some error, w1)
            | Resolved \<Rightarrow>
                (case render r w1 of
                   (Some error, w2) \<Rightarrow> (Some error, w2)
                 | (None, w2) \<Rightarrow>
                     (None, w2\<lparr>trace := trace w2 @
                        [Published ''widget:refreshed'' (className w2) None]\<rparr>))))"

text \<open>One call of \<open>refresh\<close> with nothing else running before its promise settles.\<close>

definition refresh :: "BaseWidget \<Rightarrow> settle \<Rightarrow> render_outcome \<Rightarrow> thrown option \<times> BaseWidget" where
  "refresh w outcome r =
     (case refresh_begin w of
        (True, r0, w1) \<Rightarrow> refresh_resume r w1 outcome
      | (False, r0, w1) \<Rightarrow> (r0, w1))"

text \<open>
  Calls of \<open>refresh\<close> interleave only at the \<open>await\<close>. What happens to a widget is a
  sequence of events: \<open>refresh\<close> is called, or the promise of a call of \<open>loadData\<close>
  that is in flight settles and the call of \<open>refresh\<close> that awaits it runs to its end.
  The calls of \<open>loadData\<close> in flight are those called and not yet settled.
\<close>

datatype widget_event = RefreshCalled | LoadDataDone settle render_outcome

definition in_flight :: "BaseWidget \<Rightarrow> int" where
  "in_flight w = int (count_list (trace w) LoadDataCalled) - int (count_list (trace w) LoadDataSettled)"

fun widget_step :: "BaseWidget \<Rightarrow> widget_event \<Rightarrow> BaseWidget" where
  "widget_step w RefreshCalled = snd (snd (refresh_begin w))"
| "widget_step w (LoadDataDone outcome r) =
     (if in_flight w > 0 then snd (refresh_resume r w outcome) else w)"

subsection \<open>Auto-refresh timer and destroy\<close>

definition stopAutoRefresh :: "BaseWidget \<Rightarrow> BaseWidget" where
  "stopAutoRefresh w =
     (case refreshInterval w of
        None \<Rightarrow> w
      | Some timer \<Rightarrow>
          w\<lparr>widgetTimers := removeAll timer (widgetTimers w),
            refreshInterval := None,
            trace := trace w @ [ConsoleLog (''Auto-refresh stopped for '' @ className w)]\<rparr>)"

definition widget_startAutoRefresh :: "BaseWidget \<Rightarrow> BaseWidget" where
  "widget_startAutoRefresh w =
     (let w1 = (if refreshInterval w \<noteq> None then stopAutoRefresh w else w)
      in if autoRefreshEnabled w1 \<and> refreshIntervalMs w1 > 0
         then (let timer = Suc (widgetTimerCount w1)
               in w1\<lparr>widgetTimers := widgetTimers w1 @ [timer],
                     widgetTimerCount := timer,
                     refreshInterval := Some timer,
                     trace := trace w1 @ [ConsoleLog (''Auto-refresh started for '' @ className w1)]\<rparr>)
         else w1)"

definition setAutoRefreshInterval :: "BaseWidget \<Rightarrow> int \<Rightarrow> BaseWidget" where
  "setAutoRefreshInterval w intervalMs =
     (let w1 = w\<lparr>refreshIntervalMs := intervalMs\<rparr>
      in if refreshInterval w1 \<noteq> None
         then widget_startAutoRefresh (stopAutoRefresh w1) else w1)"

definition setAutoRefresh :: "BaseWidget \<Rightarrow> bool \<Rightarrow> BaseWidget" where
  "setAutoRefresh w enabled =
     (let w1 = w\<lparr>autoRefreshEnabled := enabled\<rparr>
      in if enabled then widget_startAutoRefresh w1 else stopAutoRefresh w1)"

text \<open>
  \<open>destroy\<close>. No statement of it can throw: the container is tested before it is used,
  and \<open>window.removeEventListener\<close> ignores a listener that was never added (the base
  class adds none), so the function has no exception among its results.
\<close>

definition destroy :: "BaseWidget \<Rightarrow> BaseWidget" where
  "destroy w =
     (let w1 = w\<lparr>trace := trace w @ [ConsoleLog (''Destroying '' @ className w)]\<rparr>;
          w2 = stopAutoRefresh w1;
          w3 = (case container w2 of
                  None \<Rightarrow> w2
                | Some el \<Rightarrow> w2\<lparr>container := Some (set_innerHTML el Blank)\<rparr>)
      in w3\<lparr>isInitialized := False\<rparr>)"

text \<open>The calls that start and stop the timer of a widget.\<close>

datatype timer_call =
    StartAutoRefresh | StopAutoRefresh | SetAutoRefreshInterval int | SetAutoRefresh bool

fun timer_step :: "BaseWidget \<Rightarrow> timer_call \<Rightarrow> BaseWidget" where
  "timer_step w StartAutoRefresh = widget_startAutoRefresh w"
| "timer_step w StopAutoRefresh = stopAutoRefresh w"
| "timer_step w (SetAutoRefreshInterval intervalMs) = setAutoRefreshInterval w intervalMs"
| "timer_step w (SetAutoRefresh enabled) = setAutoRefresh w enabled"

subsection \<open>Invariants\<close>

text \<open>
  At most one call of \<open>loadData\<close> is in flight, and the loading flag is set while
  one is.
\<close>

definition refresh_inv :: "BaseWidget \<Rightarrow> bool" where
  "refresh_inv w = (0 \<le> in_flight w \<and> in_flight w \<le> 1 \<and> (in_flight w = 1 \<longrightarrow> isLoading w))"

text \<open>Every live timer of the widget is the one recorded in \<open>refreshInterval\<close>.\<close>

definition timers_recorded :: "BaseWidget \<Rightarrow> bool" where
  "timers_recorded w = (set (widgetTimers w) \<subseteq> set_option (refreshInterval w))"

subsection \<open>A concrete widget\<close>

text \<open>
  A tasks widget whose container shows rendered markup, as after \<open>init\<close>, and the
  same widget with its auto-refresh timer started.
\<close>

definition tasks_element :: element where
  "tasks_element = \<lparr>classList = [''widget''], content = Markup ''tasks'', overlays = 0,
                     retryListeners = 0\<rparr>"

definition tasks_widget :: BaseWidget where
  "tasks_widget = new_BaseWidget ''TasksWidget'' (Some tasks_element)"

definition tasks_widget_polling :: BaseWidget where
  "tasks_widget_polling = widget_startAutoRefresh tasks_widget"

section \<open>Properties of the Event Bus\<close>

subsection \<open>The loop of emit\<close>

lemma forEach_listener_Cons_ok:
  "call beh c args b = (None, b') \<Longrightarrow>
   forEach_listener beh e args (c # rest) b n =
     (fst (forEach_listener beh e args rest b' (Suc n)),
      fst (snd (forEach_listener beh e args rest b' (Suc n))),
      (c, True) # snd (snd (forEach_listener beh e args rest b' (Suc n))))"
  by (simp split: prod.splits)

lemma forEach_listener_Cons_throw:
  "call beh c args b = (Some err, b') \<Longrightarrow>
   forEach_listener beh e args (c # rest) b n =
     (fst (forEach_listener beh e args rest (b'\<lparr>console := console b' @ [Err e]\<rparr>) n),
      fst (snd (forEach_listener beh e args rest (b'\<lparr>console := console b' @ [Err e]\<rparr>) n)),
      (c, False) # snd (snd (forEach_listener beh e args rest (b'\<lparr>console := console b' @ [Err e]\<rparr>) n)))"
  by (simp split: prod.splits)

lemma forEach_listener_invoked:
  "map fst (snd (snd (forEach_listener beh e args ls b n))) = ls"
proof (induction ls arbitrary: b n)
  case Nil
  show ?case by simp
next
  case (Cons c rest)
  obtain r b' where cr: "call beh c args b = (r, b')" by (cases "call beh c args b")
  show ?case
  proof (cases r)
    case None
    with cr Cons.IH show ?thesis by (simp only: forEach_listener_Cons_ok) simp
  next
    case (Some err)
    with cr Cons.IH show ?thesis by (simp only: forEach_listener_Cons_throw) simp
  qed
qed

lemma forEach_listener_count:
  "fst (snd (forEach_listener beh e args ls b n)) =
     n + length (filter snd (snd (snd (forEach_listener beh e args ls b n))))"
proof (induction ls arbitrary: b n)
  case Nil
  show ?case by simp
next
  case (Cons c rest)
  obtain r b' where cr: "call beh c args b = (r, b')" by (cases "call beh c args b")
  show ?case
  proof (cases r)
    case None
    with cr Cons.IH[of b' "Suc n"] show ?thesis by (simp only: forEach_listener_Cons_ok) simp
  next
    case (Some err)
    with cr Cons.IH[of "b'\<lparr>console := console b' @ [Err e]\<rparr>" n] show ?thesis
      by (simp only: forEach_listener_Cons_throw) simp
  qed
qed

lemma invoked_emit: "map fst (invoked (emit beh b e args)) = listeners_of b e"
  by (simp add: emit_def listeners_of_def forEach_listener_invoked split: option.splits prod.splits)
   (metis forEach_listener_invoked snd_conv)

lemma returned_emit:
  "returned (emit beh b e args) = (\<exists>c. (c, True) \<in> set (invoked (emit beh b e args)))"
proof (cases "events b e")
  case None
  then show ?thesis by (simp add: emit_def)
next
  case (Some ls)
  obtain b' n calls where r: "forEach_listener beh e args ls b 0 = (b', n, calls)"
    by (cases "forEach_listener beh e args ls b 0") auto
  from forEach_listener_count[of beh e args ls b 0] r
  have "n = length (filter snd calls)" by simp
  then have "(n > 0) = (\<exists>c. (c, True) \<in> set calls)"
    by (force simp: filter_empty_conv)
  with Some r show ?thesis by (simp add: emit_def)
qed

lemma indexOf_mem: "(indexOf xs x > -1) = (x \<in> set xs)"
  by (induction xs) (auto simp: Let_def)

lemma indexOf_bounds: "indexOf xs x \<ge> -1 \<and> indexOf xs x < int (length xs)"
  by (induction xs) (auto simp: Let_def)

lemma splice1_indexOf: "x \<in> set xs \<Longrightarrow> splice1 xs (nat (indexOf xs x)) = remove1 x xs"
proof (induction xs)
  case Nil then show ?case by simp
next
  case (Cons y ys)
  show ?case
  proof (cases "y = x")
    case True then show ?thesis by (simp add: splice1_def)
  next
    case False
    with Cons have m: "x \<in> set ys" by simp
    then have "indexOf ys x > -1" by (simp add: indexOf_mem)
    then have "nat (indexOf ys x + 1) = Suc (nat (indexOf ys x))" by simp
    with False Cons.IH[OF m] \<open>indexOf ys x > -1\<close> show ?thesis
      by (simp add: splice1_def Let_def)
  qed
qed

lemma listeners_of_off:
  "listeners_of (snd (off b e c)) e' = (if e' = e then remove1 c (listeners_of b e) else listeners_of b e')"
  by (auto simp: off_def listeners_of_def Let_def indexOf_mem splice1_indexOf remove1_idem split: option.splits)

lemma fst_off: "fst (off b e c) = (c \<in> set (listeners_of b e))"
  by (auto simp: off_def listeners_of_def Let_def indexOf_mem split: option.splits)


lemma console_off: "console (snd (off b e c)) = console b"
  by (simp add: off_def Let_def split: option.splits)

lemma count_list_extend: "ys = xs @ ext \<Longrightarrow> count_list xs x \<le> count_list ys x"
  by simp

lemma call_console:
  assumes "\<forall>k a s. \<exists>ext. console (snd (beh k a s)) = console s @ ext"
  shows "\<exists>ext. console (snd (call beh c args b)) = console b @ ext"
proof (induction c arbitrary: b)
  case (Fn k)
  from assms show ?case by simp
next
  case (OnceWrapper k ev cb)
  obtain r b' where cr: "call beh cb args b = (r, b')" by (cases "call beh cb args b")
  with OnceWrapper[of b] have "\<exists>ext. console b' = console b @ ext" by simp
  with cr show ?case by (cases r) (simp_all add: console_off)
next
  case NotFn
  show ?case by simp
qed

lemma forEach_listener_console:
  assumes "\<forall>k a s. \<exists>ext. console (snd (beh k a s)) = console s @ ext"
  shows "count_list (console b) (Err e) + length (filter (\<lambda>p. \<not> snd p) (snd (snd (forEach_listener beh e args ls b n))))
           \<le> count_list (console (fst (forEach_listener beh e args ls b n))) (Err e)"
proof (induction ls arbitrary: b n)
  case Nil
  show ?case by simp
next
  case (Cons c rest)
  obtain r b' where cr: "call beh c args b = (r, b')" by (cases "call beh c args b")
  from call_console[OF assms, of c args b] cr obtain ext where "console b' = console b @ ext"
    by auto
  then have le: "count_list (console b) (Err e) \<le> count_list (console b') (Err e)"
    by (rule count_list_extend)
  show ?case
  proof (cases r)
    case None
    with cr Cons.IH[of b' "Suc n"] le show ?thesis
      by (simp only: forEach_listener_Cons_ok) simp
  next
    case (Some err)
    with cr Cons.IH[of "b'\<lparr>console := console b' @ [Err e]\<rparr>" n] le show ?thesis
      by (simp only: forEach_listener_Cons_throw) simp
  qed
qed

lemma emit_console:
  assumes "\<forall>k a s. \<exists>ext. console (snd (beh k a s)) = console s @ ext"
  shows "count_list (console b) (Err e) + length (filter (\<lambda>p. \<not> snd p) (invoked (emit beh b e args)))
           \<le> count_list (console (bus_after (emit beh b e args))) (Err e)"
proof (cases "events b e")
  case None
  then show ?thesis by (simp add: emit_def)
next
  case (Some ls)
  obtain b' n calls where r: "forEach_listener beh e args ls b 0 = (b', n, calls)"
    by (cases "forEach_listener beh e args ls b 0") auto
  from forEach_listener_console[OF assms, of b e args ls 0] r Some show ?thesis
    by (simp add: emit_def)
qed

lemma emit_no_listeners:
  "listenerCount b e = 0 \<Longrightarrow> \<not> returned (emit beh b e args) \<and> bus_after (emit beh b e args) = b
     \<and> invoked (emit beh b e args) = []"
  by (auto simp: listenerCount_def emit_def split: option.splits)


lemma forEach_listener_outcomes:
  "snd (snd (forEach_listener beh e args ls b n)) = listener_outcomes beh e args ls b"
proof (induction ls arbitrary: b n)
  case Nil
  show ?case by simp
next
  case (Cons c rest)
  obtain r b' where cr: "call beh c args b = (r, b')" by (cases "call beh c args b")
  show ?case
  proof (cases r)
    case None
    with cr Cons.IH[of b' "Suc n"] show ?thesis
      by (simp only: forEach_listener_Cons_ok) (simp add: after_listener_def)
  next
    case (Some err)
    with cr Cons.IH[of "b'\<lparr>console := console b' @ [Err e]\<rparr>" n] show ?thesis
      by (simp only: forEach_listener_Cons_throw) (simp add: after_listener_def)
  qed
qed

lemma forEach_listener_bus:
  "fst (forEach_listener beh e args ls b n) = foldl (after_listener beh e args) b ls"
proof (induction ls arbitrary: b n)
  case Nil
  show ?case by simp
next
  case (Cons c rest)
  obtain r b' where cr: "call beh c args b = (r, b')" by (cases "call beh c args b")
  show ?case
  proof (cases r)
    case None
    with cr Cons.IH[of b' "Suc n"] show ?thesis
      by (simp only: forEach_listener_Cons_ok) (simp add: after_listener_def)
  next
    case (Some err)
    with cr Cons.IH[of "b'\<lparr>console := console b' @ [Err e]\<rparr>" n] show ?thesis
      by (simp only: forEach_listener_Cons_throw) (simp add: after_listener_def)
  qed
qed

lemma emit_outcomes:
  "invoked (emit beh b e args) = listener_outcomes beh e args (listeners_of b e) b"
proof (cases "events b e")
  case None
  then show ?thesis by (simp add: emit_def listeners_of_def)
next
  case (Some ls)
  obtain b' n calls where r: "forEach_listener beh e args ls b 0 = (b', n, calls)"
    by (cases "forEach_listener beh e args ls b 0") auto
  from forEach_listener_outcomes[of beh e args ls b 0] r
  have "calls = listener_outcomes beh e args ls b" by simp
  with Some r show ?thesis by (simp add: emit_def listeners_of_def)
qed

lemma emit_bus_after:
  "bus_after (emit beh b e args) = foldl (after_listener beh e args) b (listeners_of b e)"
proof (cases "events b e")
  case None
  then show ?thesis by (simp add: emit_def listeners_of_def)
next
  case (Some ls)
  obtain b' n calls where r: "forEach_listener beh e args ls b 0 = (b', n, calls)"
    by (cases "forEach_listener beh e args ls b 0") auto
  from forEach_listener_bus[of beh e args ls b 0] r
  have "b' = foldl (after_listener beh e args) b ls" by simp
  with Some r show ?thesis by (simp add: emit_def listeners_of_def)
qed

lemma outcomes_fixed:
  "\<forall>c \<in> set ls. \<forall>s. (fst (call beh c args s) = None) = ok c \<Longrightarrow>
   listener_outcomes beh e args ls b = map (\<lambda>c. (c, ok c)) ls"
  by (induction ls arbitrary: b) simp_all

lemma returned_fixed:
  assumes "\<forall>c \<in> set (listeners_of b e). \<forall>s. (fst (call beh c args s) = None) = ok c"
  shows "returned (emit beh b e args) = (\<exists>c \<in> set (listeners_of b e). ok c)"
proof -
  have "invoked (emit beh b e args) = map (\<lambda>c. (c, ok c)) (listeners_of b e)"
    using outcomes_fixed[OF assms] by (simp add: emit_outcomes)
  then show ?thesis by (auto simp: returned_emit)
qed

text \<open>
  C7. \<open>emit\<close> calls the listeners registered for the event name one after the
  other, in order, each on the bus the earlier ones left, whether or not an earlier
  one threw: what it reports as invoked is what these calls give, and the bus it
  leaves is the bus they leave, with one error entry on the console after every call
  that threw. It returns true exactly when at least one of these calls returned
  without throwing; when whether a listener throws does not depend on the bus, that
  is exactly when some registered listener is one that returns. On an event name
  without listeners it returns false and leaves the bus as it was; \<open>emit\<close> has no
  exception among its results. When the callbacks only append to the console, the
  console holds, after the call, at least one more error entry for the event name per
  callback that threw.
\<close>

theorem emit_returns:
  "returned (emit beh b e args) = (\<exists>c. (c, True) \<in> set (invoked (emit beh b e args)))
   \<and> invoked (emit beh b e args) = listener_outcomes beh e args (listeners_of b e) b
   \<and> bus_after (emit beh b e args) = foldl (after_listener beh e args) b (listeners_of b e)
   \<and> returned (emit beh b e args) =
        (\<exists>c. (c, True) \<in> set (listener_outcomes beh e args (listeners_of b e) b))
   \<and> ((\<forall>c \<in> set (listeners_of b e). \<forall>s. (fst (call beh c args s) = None) = ok c) \<longrightarrow>
        returned (emit beh b e args) = (\<exists>c \<in> set (listeners_of b e). ok c))
   \<and> map fst (invoked (emit beh b e args)) = listeners_of b e
   \<and> (listenerCount b e = 0 \<longrightarrow>
        \<not> returned (emit beh b e args) \<and> bus_after (emit beh b e args) = b)
   \<and> ((\<forall>k a s. \<exists>ext. console (snd (beh k a s)) = console s @ ext) \<longrightarrow>
        count_list (console b) (Err e) + length (filter (\<lambda>p. \<not> snd p) (invoked (emit beh b e args)))
          \<le> count_list (console (bus_after (emit beh b e args))) (Err e))"
proof -
  have o: "invoked (emit beh b e args) = listener_outcomes beh e args (listeners_of b e) b"
    by (rule emit_outcomes)
  have r: "returned (emit beh b e args) = (\<exists>c. (c, True) \<in> set (invoked (emit beh b e args)))"
    by (rule returned_emit)
  from o r have r2: "returned (emit beh b e args) =
        (\<exists>c. (c, True) \<in> set (listener_outcomes beh e args (listeners_of b e) b))" by simp
  show ?thesis
    using o r r2 emit_bus_after[of beh b e args] returned_fixed[of b e beh args ok]
      invoked_emit[of beh b e args] emit_no_listeners[of b e beh args] emit_console[of beh b e args]
    by blast
qed


lemmas bus_eval = emit_def on_def once_def off_def new_EventBus_def listeners_of_def listenerCount_def
  splice1_def bus_AB_def bus_AA_def beh_unsubscriber_def beh_throwing_def beh_logging_def
  beh_first_throws_def thrower_at_def

text \<open>
  C7 at concrete inputs: a bus without listeners, and the bus with \<open>Fn 0\<close> and
  \<open>Fn 1\<close>, with functions that all throw (\<open>emit\<close> returns false), with the first
  one throwing and the second returning (\<open>emit\<close> returns true, both are called, the
  error is on the console), and with functions that return.
\<close>

theorem emit_returns_witness:
  "listenerCount new_EventBus ''e'' = 0
   \<and> (\<forall>k a s. \<exists>ext. console (snd (beh_throwing k (a :: unit list) s)) = console s @ ext)
   \<and> \<not> returned (emit beh_throwing new_EventBus ''e'' [])
   \<and> \<not> returned (emit beh_throwing bus_AB ''e'' [])
   \<and> invoked (emit beh_throwing bus_AB ''e'' []) = [(Fn 0, False), (Fn 1, False)]
   \<and> returned (emit beh_first_throws bus_AB ''e'' [])
   \<and> invoked (emit beh_first_throws bus_AB ''e'' []) = [(Fn 0, False), (Fn 1, True)]
   \<and> console (bus_after (emit beh_first_throws bus_AB ''e'' [])) =
        [Log ''invoked'', Err ''e'', Log ''invoked'']
   \<and> returned (emit beh_unsubscriber bus_AB ''e'' [])
   \<and> 2 \<le> count_list (console (bus_after (emit beh_throwing bus_AB ''e'' []))) (Err ''e'')"
  using emit_returns[of beh_throwing new_EventBus "''e''" "[]" "\<lambda>c. False"]
        emit_returns[of beh_unsubscriber bus_AB "''e''" "[]" "\<lambda>c. True"]
        emit_returns[of beh_throwing bus_AB "''e''" "[]" "\<lambda>c. False"]
        emit_returns[of beh_first_throws bus_AB "''e''" "[]" "\<lambda>c. c \<noteq> Fn 0"]
  by (simp add: bus_eval after_listener_def)


subsection \<open>Unsubscribing and the snapshot\<close>

text \<open>
  C1 as stated fails: \<open>Fn 0\<close> and \<open>Fn 1\<close> are subscribed to \<open>e\<close>, and \<open>Fn 0\<close>
  calls \<open>off('e', Fn 1)\<close>. The call of \<open>off\<close> returns true and removes \<open>Fn 1\<close>;
  the \<open>emit\<close> in progress still invokes \<open>Fn 1\<close> afterwards, from its copy of the array.
  And \<open>off\<close> removes one registration only: when \<open>Fn 0\<close> has subscribed twice, an
  \<open>emit\<close> called after \<open>off('e', Fn 0)\<close> has returned true still invokes it.
\<close>

theorem emit_invokes_unsubscribed_listener:
  "listeners_of bus_AB ''e'' = [Fn 0, Fn 1]
   \<and> fst (off bus_AB ''e'' (Fn 1))
   \<and> invoked (emit beh_unsubscriber bus_AB ''e'' []) = [(Fn 0, True), (Fn 1, True)]
   \<and> console (bus_after (emit beh_unsubscriber bus_AB ''e'' [])) =
        [Log ''off(e, Fn 1) returned true'', Log ''invoked'']
   \<and> listeners_of (bus_after (emit beh_unsubscriber bus_AB ''e'' [])) ''e'' = [Fn 0]
   \<and> listeners_of bus_AA ''e'' = [Fn 0, Fn 0]
   \<and> fst (off bus_AA ''e'' (Fn 0))
   \<and> invoked (emit beh_logging (snd (off bus_AA ''e'' (Fn 0))) ''e'' []) = [(Fn 0, True)]"
  by (simp add: bus_eval)

lemma count_list_remove1_self: "count_list (remove1 c xs) c = count_list xs c - 1"
  by (induction xs) auto

lemma not_registered_after_off:
  assumes "count_list (listeners_of b e) c \<le> 1"
  shows "c \<notin> set (listeners_of (snd (off b e c)) e)"
proof -
  from assms have "count_list (remove1 c (listeners_of b e)) c = 0"
    by (simp add: count_list_remove1_self)
  then have "c \<notin> set (remove1 c (listeners_of b e))"
    using count_list_0_iff[of "remove1 c (listeners_of b e)" c] by blast
  then show ?thesis by (simp add: listeners_of_off)
qed


lemma call_indep:
  assumes agree: "\<forall>k. k \<noteq> j \<longrightarrow> beh' k = beh k"
  shows "Fn j \<notin> set (functions_in l) \<Longrightarrow> call beh' l args b = call beh l args b"
proof (induction l arbitrary: b)
  case (Fn k)
  then have "k \<noteq> j" by auto
  with agree show ?case by simp
next
  case (OnceWrapper k ev cb)
  then have "call beh' cb args b = call beh cb args b" by simp
  then show ?case by simp
next
  case NotFn
  show ?case by simp
qed

lemma forEach_indep:
  assumes agree: "\<forall>k. k \<noteq> j \<longrightarrow> beh' k = beh k"
  shows "\<forall>l \<in> set ls. Fn j \<notin> set (functions_in l) \<Longrightarrow>
         forEach_listener beh' e args ls b n = forEach_listener beh e args ls b n"
proof (induction ls arbitrary: b n)
  case Nil
  show ?case by simp
next
  case (Cons c rest)
  then have c: "call beh' c args b = call beh c args b" using call_indep[OF agree] by simp
  from Cons have r: "\<And>b n. forEach_listener beh' e args rest b n = forEach_listener beh e args rest b n"
    by simp
  show ?case by (cases "call beh c args b") (simp add: c r split: option.split)
qed

lemma emit_indep:
  assumes agree: "\<forall>k. k \<noteq> j \<longrightarrow> beh' k = beh k"
      and "\<forall>l \<in> set (listeners_of b e). Fn j \<notin> set (functions_in l)"
  shows "emit beh' b e args = emit beh b e args"
proof (cases "events b e")
  case None
  then show ?thesis by (simp add: emit_def)
next
  case (Some ls)
  with assms(2) have "\<forall>l \<in> set ls. Fn j \<notin> set (functions_in l)" by (simp add: listeners_of_def)
  from forEach_indep[OF agree this] Some show ?thesis by (simp add: emit_def)
qed

lemma listeners_of_on:
  "set (listeners_of (snd (on b e c)) e') \<subseteq> set (listeners_of b e') \<union> {c}"
  by (auto simp: on_def Let_def listeners_of_def split: option.splits if_splits)

lemma listeners_of_closures: "listeners_of (b\<lparr>closures := n\<rparr>) e = listeners_of b e"
  by (simp add: listeners_of_def)

lemma listeners_of_console: "listeners_of (b\<lparr>console := x\<rparr>) e = listeners_of b e"
  by (simp add: listeners_of_def)

lemma listeners_of_once:
  "set (listeners_of (snd (once b e c)) e') \<subseteq> set (listeners_of b e') \<union> {OnceWrapper (closures b) e c}"
  using listeners_of_on[of "b\<lparr>closures := Suc (closures b)\<rparr>" e "OnceWrapper (closures b) e c" e']
  by (simp add: once_def Let_def listeners_of_closures)

lemma listeners_of_off_subset:
  "set (listeners_of (snd (off b e c)) e') \<subseteq> set (listeners_of b e')"
  using set_remove1_subset[of c "listeners_of b e"] by (simp add: listeners_of_off)

lemma nowhere_on:
  "registered_nowhere j b \<Longrightarrow> Fn j \<notin> set (functions_in c) \<Longrightarrow> registered_nowhere j (snd (on b e c))"
  unfolding registered_nowhere_def using listeners_of_on[of b e c] by blast

lemma nowhere_once:
  "registered_nowhere j b \<Longrightarrow> Fn j \<notin> set (functions_in c) \<Longrightarrow> registered_nowhere j (snd (once b e c))"
proof -
  assume a: "registered_nowhere j b" and c: "Fn j \<notin> set (functions_in c)"
  then have w: "Fn j \<notin> set (functions_in (OnceWrapper (closures b) e c))" by simp
  show ?thesis
    unfolding registered_nowhere_def
  proof (intro allI ballI)
    fix e' l assume "l \<in> set (listeners_of (snd (once b e c)) e')"
    with listeners_of_once[of b e c e'] have "l \<in> set (listeners_of b e') \<or> l = OnceWrapper (closures b) e c"
      by auto
    with a w show "Fn j \<notin> set (functions_in l)" by (auto simp: registered_nowhere_def)
  qed
qed

lemma nowhere_off: "registered_nowhere j b \<Longrightarrow> registered_nowhere j (snd (off b e c))"
  unfolding registered_nowhere_def using listeners_of_off_subset[of b e c] by blast

lemma nowhere_console: "registered_nowhere j (b\<lparr>console := x\<rparr>) = registered_nowhere j b"
  by (simp add: registered_nowhere_def listeners_of_console)

lemma nowhere_call:
  assumes keep: "\<forall>k a s. k \<noteq> j \<longrightarrow> registered_nowhere j s \<longrightarrow> registered_nowhere j (snd (beh k a s))"
  shows "Fn j \<notin> set (functions_in l) \<Longrightarrow> registered_nowhere j b \<Longrightarrow>
         registered_nowhere j (snd (call beh l args b))"
proof (induction l arbitrary: b)
  case (Fn k)
  then have "k \<noteq> j" by auto
  with keep Fn show ?case by simp
next
  case (OnceWrapper k ev cb)
  obtain r b' where cr: "call beh cb args b = (r, b')" by (cases "call beh cb args b")
  from OnceWrapper have "registered_nowhere j (snd (call beh cb args b))" by simp
  with cr have n: "registered_nowhere j b'" by simp
  show ?case
  proof (cases r)
    case None
    with cr n show ?thesis by (simp add: nowhere_off)
  next
    case (Some err)
    with cr n show ?thesis by simp
  qed
next
  case NotFn
  then show ?case by simp
qed

lemma nowhere_after_listener:
  assumes keep: "\<forall>k a s. k \<noteq> j \<longrightarrow> registered_nowhere j s \<longrightarrow> registered_nowhere j (snd (beh k a s))"
      and "Fn j \<notin> set (functions_in l)" "registered_nowhere j b"
  shows "registered_nowhere j (after_listener beh e args b l)"
proof -
  obtain r b' where cr: "call beh l args b = (r, b')" by (cases "call beh l args b")
  from nowhere_call[OF keep assms(2,3), of args] cr have "registered_nowhere j b'" by simp
  with cr show ?thesis by (cases r) (simp_all add: after_listener_def nowhere_console)
qed

lemma nowhere_fold:
  assumes keep: "\<forall>k a s. k \<noteq> j \<longrightarrow> registered_nowhere j s \<longrightarrow> registered_nowhere j (snd (beh k a s))"
  shows "\<forall>l \<in> set ls. Fn j \<notin> set (functions_in l) \<Longrightarrow> registered_nowhere j b \<Longrightarrow>
         registered_nowhere j (foldl (after_listener beh e args) b ls)"
proof (induction ls arbitrary: b)
  case Nil
  then show ?case by simp
next
  case (Cons l rest)
  from Cons.prems have "registered_nowhere j (after_listener beh e args b l)"
    using nowhere_after_listener[OF keep] by simp
  with Cons show ?case by simp
qed

lemma nowhere_emit:
  assumes keep: "\<forall>k a s. k \<noteq> j \<longrightarrow> registered_nowhere j s \<longrightarrow> registered_nowhere j (snd (beh k a s))"
      and "registered_nowhere j b"
  shows "registered_nowhere j (bus_after (emit beh b e args))"
proof -
  from assms(2) have "\<forall>l \<in> set (listeners_of b e). Fn j \<notin> set (functions_in l)"
    by (simp add: registered_nowhere_def)
  from nowhere_fold[OF keep this assms(2)] show ?thesis by (simp add: emit_bus_after)
qed

lemma nowhere_step:
  assumes keep: "\<forall>k a s. k \<noteq> j \<longrightarrow> registered_nowhere j s \<longrightarrow> registered_nowhere j (snd (beh k a s))"
      and "registered_nowhere j b" "\<not> registers j c"
  shows "registered_nowhere j (bus_step beh b c)"
  using assms(2,3) nowhere_emit[OF keep assms(2)]
  by (cases c) (simp_all add: nowhere_on nowhere_once nowhere_off)

lemma step_indep:
  assumes agree: "\<forall>k. k \<noteq> j \<longrightarrow> beh' k = beh k" and "registered_nowhere j b"
  shows "bus_step beh' b c = bus_step beh b c"
proof (cases c)
  case (CallEmit e args)
  from assms(2) have "\<forall>l \<in> set (listeners_of b e). Fn j \<notin> set (functions_in l)"
    by (simp add: registered_nowhere_def)
  from emit_indep[OF agree this] CallEmit show ?thesis by simp
qed simp_all

lemma run_indep:
  assumes agree: "\<forall>k. k \<noteq> j \<longrightarrow> beh' k = beh k"
      and keep: "\<forall>k a s. k \<noteq> j \<longrightarrow> registered_nowhere j s \<longrightarrow> registered_nowhere j (snd (beh k a s))"
  shows "registered_nowhere j b \<Longrightarrow> \<forall>c \<in> set calls. \<not> registers j c \<Longrightarrow>
         foldl (bus_step beh') b calls = foldl (bus_step beh) b calls
         \<and> registered_nowhere j (foldl (bus_step beh) b calls)"
proof (induction calls arbitrary: b)
  case Nil
  then show ?case by simp
next
  case (Cons c calls)
  from Cons.prems have n: "registered_nowhere j (bus_step beh b c)"
    using nowhere_step[OF keep] by simp
  from Cons.prems have e: "bus_step beh' b c = bus_step beh b c" using step_indep[OF agree] by simp
  from Cons.IH[OF n] Cons.prems(2) e show ?case by simp
qed

lemma nowhere_after_off:
  assumes "count_list (listeners_of b e) (Fn j) \<le> 1"
      and "\<forall>e'. \<forall>l \<in> set (listeners_of b e'). l \<noteq> Fn j \<longrightarrow> Fn j \<notin> set (functions_in l)"
      and "\<forall>e'. e' \<noteq> e \<longrightarrow> Fn j \<notin> set (listeners_of b e')"
  shows "registered_nowhere j (snd (off b e (Fn j)))"
  unfolding registered_nowhere_def
proof (intro allI ballI)
  fix e' l assume l: "l \<in> set (listeners_of (snd (off b e (Fn j))) e')"
  with listeners_of_off_subset[of b e "Fn j" e'] have m: "l \<in> set (listeners_of b e')" by auto
  have "l \<noteq> Fn j"
  proof (cases "e' = e")
    case True
    with not_registered_after_off[OF assms(1)] l show ?thesis by auto
  next
    case False
    with assms(3) m show ?thesis by auto
  qed
  with assms(2) m show "Fn j \<notin> set (functions_in l)" by blast
qed

text \<open>
  C1, amended. \<open>emit\<close> calls exactly the listeners that are in the array of the
  event name when it is called, each once, in subscription order, each on the bus the
  earlier ones left: a snapshot, so what the callbacks do to the registry during the
  emission does not change which callbacks this emission calls. A user function that
  at that moment is neither in the array nor captured by a wrapper of \<open>once\<close> in it,
  such as one registered only during this emission, is not called by it: the emission
  does not depend on what that function does. \<open>off\<close> returns true exactly when the
  callback is in the array, and removes its first occurrence only. After \<open>off\<close> has
  returned for a function that was registered at most once, for that event name only,
  and that no wrapper captures, the function is registered nowhere; and from a bus
  where a function is registered nowhere, as long as no call and no callback registers
  it again, no later \<open>emit\<close> calls it: the run of any sequence of \<open>on\<close>, \<open>once\<close>,
  \<open>off\<close> and \<open>emit\<close> calls does not depend on what that function does.
\<close>

theorem emit_snapshot:
  "invoked (emit beh b e args) = listener_outcomes beh e args (listeners_of b e) b
   \<and> bus_after (emit beh b e args) = foldl (after_listener beh e args) b (listeners_of b e)
   \<and> map fst (invoked (emit beh b e args)) = listeners_of b e
   \<and> ((\<forall>l \<in> set (listeners_of b e). Fn j \<notin> set (functions_in l))
        \<and> (\<forall>k. k \<noteq> j \<longrightarrow> beh' k = beh k) \<longrightarrow>
        emit beh' b e args = emit beh b e args)
   \<and> fst (off b e c) = (c \<in> set (listeners_of b e))
   \<and> listeners_of (snd (off b e c)) e = remove1 c (listeners_of b e)
   \<and> (count_list (listeners_of b e) (Fn j) \<le> 1
        \<and> (\<forall>e'. \<forall>l \<in> set (listeners_of b e'). l \<noteq> Fn j \<longrightarrow> Fn j \<notin> set (functions_in l))
        \<and> (\<forall>e'. e' \<noteq> e \<longrightarrow> Fn j \<notin> set (listeners_of b e')) \<longrightarrow>
        registered_nowhere j (snd (off b e (Fn j))))
   \<and> (registered_nowhere j b
        \<and> (\<forall>c \<in> set calls. \<not> registers j c)
        \<and> (\<forall>k a s. k \<noteq> j \<longrightarrow> registered_nowhere j s \<longrightarrow> registered_nowhere j (snd (beh k a s)))
        \<and> (\<forall>k. k \<noteq> j \<longrightarrow> beh' k = beh k) \<longrightarrow>
        foldl (bus_step beh') b calls = foldl (bus_step beh) b calls
        \<and> registered_nowhere j (foldl (bus_step beh) b calls))"
proof -
  have d: "(\<forall>l \<in> set (listeners_of b e). Fn j \<notin> set (functions_in l))
        \<and> (\<forall>k. k \<noteq> j \<longrightarrow> beh' k = beh k) \<longrightarrow> emit beh' b e args = emit beh b e args"
    using emit_indep[of j beh' beh b e args] by blast
  have f: "count_list (listeners_of b e) (Fn j) \<le> 1
        \<and> (\<forall>e'. \<forall>l \<in> set (listeners_of b e'). l \<noteq> Fn j \<longrightarrow> Fn j \<notin> set (functions_in l))
        \<and> (\<forall>e'. e' \<noteq> e \<longrightarrow> Fn j \<notin> set (listeners_of b e')) \<longrightarrow>
        registered_nowhere j (snd (off b e (Fn j)))"
    using nowhere_after_off[of b e j] by blast
  have g: "registered_nowhere j b
        \<and> (\<forall>c \<in> set calls. \<not> registers j c)
        \<and> (\<forall>k a s. k \<noteq> j \<longrightarrow> registered_nowhere j s \<longrightarrow> registered_nowhere j (snd (beh k a s)))
        \<and> (\<forall>k. k \<noteq> j \<longrightarrow> beh' k = beh k) \<longrightarrow>
        foldl (bus_step beh') b calls = foldl (bus_step beh) b calls
        \<and> registered_nowhere j (foldl (bus_step beh) b calls)"
    using run_indep[of j beh' beh b calls] by blast
  have o: "listeners_of (snd (off b e c)) e = remove1 c (listeners_of b e)"
    by (simp add: listeners_of_off)
  show ?thesis
    using emit_outcomes[of beh b e args] emit_bus_after[of beh b e args] invoked_emit[of beh b e args]
      d fst_off[of b e c] o f g
    by blast
qed

text \<open>
  C1, amended, on the bus with \<open>Fn 0\<close> and \<open>Fn 1\<close>: \<open>Fn 2\<close> is not registered and
  the emission is the same when \<open>Fn 2\<close> is replaced by a function that throws; after
  \<open>off('e', Fn 1)\<close>, a run of two emissions with registrations of other functions
  between them is the same when \<open>Fn 1\<close> is replaced by a function that throws.
\<close>

theorem emit_snapshot_witness:
  "count_list (listeners_of bus_AB ''e'') (Fn 1) \<le> 1
   \<and> invoked (emit beh_unsubscriber bus_AB ''e'' []) = [(Fn 0, True), (Fn 1, True)]
   \<and> invoked (emit beh_throwing bus_AB ''e'' []) = [(Fn 0, False), (Fn 1, False)]
   \<and> console (bus_after (emit beh_throwing bus_AB ''e'' [])) =
        [Log ''invoked'', Err ''e'', Log ''invoked'', Err ''e'']
   \<and> emit (thrower_at 2 beh_unsubscriber) bus_AB ''e'' [] = emit beh_unsubscriber bus_AB ''e'' []
   \<and> fst (off bus_AB ''e'' (Fn 1))
   \<and> listeners_of (snd (off bus_AB ''e'' (Fn 1))) ''e'' = [Fn 0]
   \<and> registered_nowhere 1 (snd (off bus_AB ''e'' (Fn 1)))
   \<and> foldl (bus_step (thrower_at 1 beh_logging)) (snd (off bus_AB ''e'' (Fn 1)))
         [CallEmit ''e'' [], CallOn ''f'' (Fn 0), CallOnce ''e'' (Fn 2), CallEmit ''e'' []]
       = foldl (bus_step beh_logging) (snd (off bus_AB ''e'' (Fn 1)))
         [CallEmit ''e'' [], CallOn ''f'' (Fn 0), CallOnce ''e'' (Fn 2), CallEmit ''e'' []]"
proof -
  have h1: "\<forall>l \<in> set (listeners_of bus_AB ''e''). Fn 2 \<notin> set (functions_in l)"
    by (simp add: bus_eval)
  have h2: "\<forall>k. k \<noteq> 2 \<longrightarrow> thrower_at 2 beh_unsubscriber k = beh_unsubscriber k"
    by (simp add: thrower_at_def)
  have h3: "count_list (listeners_of bus_AB ''e'') (Fn 1) \<le> 1" by (simp add: bus_eval)
  have h4: "\<forall>e'. \<forall>l \<in> set (listeners_of bus_AB e'). l \<noteq> Fn 1 \<longrightarrow> Fn 1 \<notin> set (functions_in l)"
    by (simp add: bus_eval)
  have h5: "\<forall>e'. e' \<noteq> ''e'' \<longrightarrow> Fn 1 \<notin> set (listeners_of bus_AB e')" by (simp add: bus_eval)
  have h6: "\<forall>c \<in> set [CallEmit ''e'' [], CallOn ''f'' (Fn 0), CallOnce ''e'' (Fn 2), CallEmit ''e'' ([] :: unit list)].
         \<not> registers 1 c" by simp
  have h7: "\<forall>k a s. k \<noteq> 1 \<longrightarrow> registered_nowhere 1 s \<longrightarrow>
         registered_nowhere 1 (snd (beh_logging k (a :: unit list) s))"
    by (simp add: beh_logging_def registered_nowhere_def listeners_of_def)
  have h8: "\<forall>k. k \<noteq> 1 \<longrightarrow> thrower_at 1 beh_logging k = beh_logging k" by (simp add: thrower_at_def)
  have i: "invoked (emit beh_unsubscriber bus_AB ''e'' []) = [(Fn 0, True), (Fn 1, True)]"
    by (simp add: bus_eval)
  have i2: "invoked (emit beh_throwing bus_AB ''e'' []) = [(Fn 0, False), (Fn 1, False)]"
    by (simp add: bus_eval)
  have i3: "console (bus_after (emit beh_throwing bus_AB ''e'' [])) =
        [Log ''invoked'', Err ''e'', Log ''invoked'', Err ''e'']"
    by (simp add: bus_eval)
  have o: "remove1 (Fn 1) (listeners_of bus_AB ''e'') = [Fn 0]" by (simp add: bus_eval)
  note a4 = emit_snapshot[of beh_unsubscriber bus_AB "''e''" "[]" 2 "thrower_at 2 beh_unsubscriber" "Fn 1" "[]",
      THEN conjunct2, THEN conjunct2, THEN conjunct2, THEN conjunct1]
  note b5 = emit_snapshot[of beh_logging bus_AB "''e''" "[]" 1 "thrower_at 1 beh_logging" "Fn 1" "[]",
      THEN conjunct2, THEN conjunct2, THEN conjunct2, THEN conjunct2, THEN conjunct1]
  note b6 = emit_snapshot[of beh_logging bus_AB "''e''" "[]" 1 "thrower_at 1 beh_logging" "Fn 1" "[]",
      THEN conjunct2, THEN conjunct2, THEN conjunct2, THEN conjunct2, THEN conjunct2, THEN conjunct1]
  note b7 = emit_snapshot[of beh_logging bus_AB "''e''" "[]" 1 "thrower_at 1 beh_logging" "Fn 1" "[]",
      THEN conjunct2, THEN conjunct2, THEN conjunct2, THEN conjunct2, THEN conjunct2, THEN conjunct2,
      THEN conjunct1]
  note c8 = emit_snapshot[of beh_logging "snd (off bus_AB ''e'' (Fn 1))" "''e''" "[]" 1
      "thrower_at 1 beh_logging" "Fn 1"
      "[CallEmit ''e'' [], CallOn ''f'' (Fn 0), CallOnce ''e'' (Fn 2), CallEmit ''e'' []]",
      THEN conjunct2, THEN conjunct2, THEN conjunct2, THEN conjunct2, THEN conjunct2, THEN conjunct2,
      THEN conjunct2]
  from b7 h3 h4 h5 have n: "registered_nowhere 1 (snd (off bus_AB ''e'' (Fn 1)))" by blast
  from c8 n h6 h7 h8 have r: "foldl (bus_step (thrower_at 1 beh_logging)) (snd (off bus_AB ''e'' (Fn 1)))
         [CallEmit ''e'' [], CallOn ''f'' (Fn 0), CallOnce ''e'' (Fn 2), CallEmit ''e'' []]
       = foldl (bus_step beh_logging) (snd (off bus_AB ''e'' (Fn 1)))
         [CallEmit ''e'' [], CallOn ''f'' (Fn 0), CallOnce ''e'' (Fn 2), CallEmit ''e'' []]"
    by blast
  from a4 h1 h2 have e: "emit (thrower_at 2 beh_unsubscriber) bus_AB ''e'' [] = emit beh_unsubscriber bus_AB ''e'' []"
    by blast
  have m: "Fn 1 \<in> set (listeners_of bus_AB ''e'')" by (simp add: bus_eval)
  from b5 m have f: "fst (off bus_AB ''e'' (Fn 1))" by simp
  from b6 o have l: "listeners_of (snd (off bus_AB ''e'' (Fn 1))) ''e'' = [Fn 0]" by simp
  show ?thesis
    by (intro conjI) (fact h3 i i2 i3 e f l n r)+
qed

subsection \<open>once\<close>

text \<open>
  C2 at the failing input: a callback that throws, subscribed with \<open>once\<close>. The
  wrapper is still registered after the first \<open>emit\<close>, and the second \<open>emit\<close>
  invokes the callback again.
\<close>

theorem once_keeps_throwing_callback:
  "fst (once new_EventBus ''e'' (Fn 0)) = Inr True
   \<and> listeners_of (snd (once new_EventBus ''e'' (Fn 0))) ''e'' = [OnceWrapper 0 ''e'' (Fn 0)]
   \<and> listeners_of (bus_after (emit beh_throwing (snd (once new_EventBus ''e'' (Fn 0))) ''e'' [])) ''e''
        = [OnceWrapper 0 ''e'' (Fn 0)]
   \<and> console (bus_after (emit beh_throwing
        (bus_after (emit beh_throwing (snd (once new_EventBus ''e'' (Fn 0))) ''e'' [])) ''e'' []))
        = [Log ''invoked'', Err ''e'', Log ''invoked'', Err ''e'']"
  by (simp add: bus_eval)


text \<open>A callback that returns is removed after its first invocation.\<close>

lemma once_removes_returning_callback:
  "listeners_of (bus_after (emit beh_logging (snd (once new_EventBus ''e'' (Fn 0))) ''e'' [])) ''e'' = []
   \<and> console (bus_after (emit beh_logging
        (bus_after (emit beh_logging (snd (once new_EventBus ''e'' (Fn 0))) ''e'' [])) ''e'' []))
        = [Log ''invoked'']"
  by (simp add: bus_eval)


text \<open>
  C10 at the failing input: \<open>on\<close> throws for a value that is not a function, but
  \<open>once\<close> passes its wrapper to \<open>on\<close>, and the wrapper is a function. The call
  returns true, and the wrapper throws a TypeError at every \<open>emit\<close> and stays registered.
\<close>

theorem once_accepts_non_function:
  "on new_EventBus ''e'' NotFn = (Inl (JsError ''Callback must be a function''), new_EventBus)
   \<and> fst (once new_EventBus ''e'' NotFn) = Inr True
   \<and> listeners_of (snd (once new_EventBus ''e'' NotFn)) ''e'' = [OnceWrapper 0 ''e'' NotFn]
   \<and> invoked (emit beh_logging (snd (once new_EventBus ''e'' NotFn)) ''e'' [])
        = [(OnceWrapper 0 ''e'' NotFn, False)]
   \<and> listeners_of (bus_after (emit beh_logging (snd (once new_EventBus ''e'' NotFn)) ''e'' [])) ''e''
        = [OnceWrapper 0 ''e'' NotFn]"
  by (simp add: bus_eval)


lemma on_non_function:
  "\<not> is_function c \<Longrightarrow> on b e c = (Inl (JsError ''Callback must be a function''), b)"
  by (simp add: on_def)

subsection \<open>The cap on listeners\<close>

lemma maxListeners_on: "maxListeners (snd (on b e c)) = maxListeners b"
  by (simp add: on_def Let_def)

lemma maxListeners_register: "maxListeners (register b r) = maxListeners b"
  by (cases r) (simp_all add: once_def Let_def maxListeners_on)

lemma listenerCount_on_le:
  "listenerCount b e' \<le> maxListeners b \<Longrightarrow> listenerCount (snd (on b e c)) e' \<le> maxListeners b"
  by (auto simp: on_def Let_def listenerCount_def split: option.splits)

lemma listenerCount_closures: "listenerCount (b\<lparr>closures := n\<rparr>) e = listenerCount b e"
  by (simp add: listenerCount_def)

lemma listenerCount_register_le:
  "listenerCount b e' \<le> maxListeners b \<Longrightarrow> listenerCount (register b r) e' \<le> maxListeners b"
proof (cases r)
  case (On e c)
  assume "listenerCount b e' \<le> maxListeners b"
  with On show ?thesis by (simp add: listenerCount_on_le)
next
  case (Once e c)
  assume a: "listenerCount b e' \<le> maxListeners b"
  have "listenerCount (snd (on (b\<lparr>closures := Suc (closures b)\<rparr>) e (OnceWrapper (closures b) e c))) e'
          \<le> maxListeners (b\<lparr>closures := Suc (closures b)\<rparr>)"
    by (rule listenerCount_on_le) (simp add: a listenerCount_closures)
  with Once show ?thesis by (simp add: once_def Let_def)
qed

lemma registrations_keep_cap:
  "listenerCount b e \<le> maxListeners b \<Longrightarrow>
   listenerCount (foldl register b rs) e \<le> maxListeners b \<and> maxListeners (foldl register b rs) = maxListeners b"
proof (induction rs arbitrary: b)
  case Nil
  then show ?case by simp
next
  case (Cons r rs)
  from Cons.prems have "listenerCount (register b r) e \<le> maxListeners (register b r)"
    by (simp add: listenerCount_register_le maxListeners_register)
  from Cons.IH[OF this] show ?case by (simp add: maxListeners_register)
qed

lemma on_at_cap:
  "is_function c \<Longrightarrow> maxListeners b \<le> listenerCount b e \<Longrightarrow>
   fst (on b e c) = Inr False \<and> listenerCount (snd (on b e c)) e = listenerCount b e
   \<and> console (snd (on b e c)) = console b @ [Warn e]"
  by (auto simp: on_def Let_def listenerCount_def split: option.splits)

lemma once_at_cap:
  "maxListeners b \<le> listenerCount b e \<Longrightarrow>
   fst (once b e c) = Inr False \<and> listenerCount (snd (once b e c)) e = listenerCount b e
   \<and> console (snd (once b e c)) = console b @ [Warn e]"
  using on_at_cap[of "OnceWrapper (closures b) e c" "b\<lparr>closures := Suc (closures b)\<rparr>" e]
  by (simp add: once_def Let_def listenerCount_closures)


text \<open>
  C8. After any sequence of \<open>on\<close> and \<open>once\<close> registrations on a new bus, no
  event name has more than 50 listeners. A registration for an event name that is at
  the cap returns false, leaves the number of listeners as it was and writes a warning
  to the console; it does not throw.
\<close>

theorem listener_cap:
  "listenerCount (foldl register new_EventBus rs) e \<le> 50
   \<and> (is_function c \<and> maxListeners b \<le> listenerCount b e \<longrightarrow>
        fst (on b e c) = Inr False \<and> listenerCount (snd (on b e c)) e = listenerCount b e
        \<and> console (snd (on b e c)) = console b @ [Warn e])
   \<and> (maxListeners b \<le> listenerCount b e \<longrightarrow>
        fst (once b e c) = Inr False \<and> listenerCount (snd (once b e c)) e = listenerCount b e
        \<and> console (snd (once b e c)) = console b @ [Warn e])"
proof -
  have "listenerCount new_EventBus e \<le> maxListeners new_EventBus"
    by (simp add: listenerCount_def new_EventBus_def)
  from registrations_keep_cap[OF this, of rs]
  have "listenerCount (foldl register new_EventBus rs) e \<le> 50" by (simp add: new_EventBus_def)
  then show ?thesis using on_at_cap[of c b e] once_at_cap[of b e c] by blast
qed


text \<open>C8 on the bus with fifty listeners: the 51st registration is refused.\<close>

theorem listener_cap_witness:
  "is_function (Fn 50) \<and> maxListeners bus_full \<le> listenerCount bus_full ''e''
   \<and> listenerCount bus_full ''e'' = 50
   \<and> fst (on bus_full ''e'' (Fn 50)) = Inr False
   \<and> listenerCount (snd (on bus_full ''e'' (Fn 50))) ''e'' = 50
   \<and> fst (once bus_full ''e'' (Fn 50)) = Inr False
   \<and> listenerCount (snd (once bus_full ''e'' (Fn 50))) ''e'' = 50"
proof -
  have full: "listenerCount bus_full ''e'' = 50 \<and> maxListeners bus_full = 50"
    unfolding bus_full_def by code_simp
  show ?thesis
    using listener_cap[of "[]" "''e''" "Fn 50" bus_full] full by simp
qed

section \<open>Properties of the auto-refresh coordinator\<close>

lemma update_fresh_key: "k \<notin> fst ` set al \<Longrightarrow> AList.update k v al = al @ [(k, v)]"
  by (induction al) auto

lemma liveTimers_clear_all:
  "liveTimers (foldl (\<lambda>s' (widgetName, intervalId). clearInterval s' intervalId) s al) =
     filter (\<lambda>t. fst t \<notin> snd ` set al) (liveTimers s)"
proof (induction al arbitrary: s)
  case Nil show ?case by simp
next
  case (Cons p al)
  obtain w i where p: "p = (w, i)" by (cases p)
  have "filter (\<lambda>t. fst t \<notin> snd ` set al) (filter (\<lambda>t. fst t \<noteq> i) (liveTimers s)) =
        filter (\<lambda>t. fst t \<notin> snd ` set ((w, i) # al)) (liveTimers s)"
    by (auto intro: filter_cong)
  with Cons.IH[of "clearInterval s i"] p show ?case by (simp add: clearInterval_def)
qed

lemma clear_all_intervals:
  "intervals (foldl (\<lambda>s' (widgetName, intervalId). clearInterval s' intervalId) s al) = intervals s"
proof (induction al arbitrary: s)
  case Nil show ?case by simp
next
  case (Cons p al)
  from Cons.IH[of "clearInterval s (snd p)"] show ?case
    by (simp add: clearInterval_def split_beta)
qed

lemma clear_all_isOnline:
  "isOnline (foldl (\<lambda>s' (widgetName, intervalId). clearInterval s' intervalId) s al) = isOnline s"
proof (induction al arbitrary: s)
  case Nil show ?case by simp
next
  case (Cons p al)
  from Cons.IH[of "clearInterval s (snd p)"] show ?case
    by (simp add: clearInterval_def split_beta)
qed

lemma clear_all_refreshRates:
  "refreshRates (foldl (\<lambda>s' (widgetName, intervalId). clearInterval s' intervalId) s al) = refreshRates s"
proof (induction al arbitrary: s)
  case Nil show ?case by simp
next
  case (Cons p al)
  from Cons.IH[of "clearInterval s (snd p)"] show ?case
    by (simp add: clearInterval_def split_beta)
qed

lemma pause_fields:
  "liveTimers (pauseAutoRefresh s) = filter (\<lambda>t. fst t \<notin> snd ` set (intervals s)) (liveTimers s)"
  "intervals (pauseAutoRefresh s) = intervals s"
  "isOnline (pauseAutoRefresh s) = isOnline s"
  "refreshRates (pauseAutoRefresh s) = refreshRates s"
  by (simp_all add: pauseAutoRefresh_def liveTimers_clear_all clear_all_intervals
        clear_all_isOnline clear_all_refreshRates)

lemma start_loop_online:
  "isOnline s \<Longrightarrow> distinct (map fst rates) \<Longrightarrow> fst ` set rates \<inter> fst ` set (intervals s) = {} \<Longrightarrow>
   \<exists>new. liveTimers (foldl start_step s rates) = liveTimers s @ new
        \<and> intervals (foldl start_step s rates) = intervals s @ map (\<lambda>t. (fst (snd t), fst t)) new
        \<and> map snd new = filter (\<lambda>r. snd r > 0) rates
        \<and> isOnline (foldl start_step s rates)
        \<and> refreshRates (foldl start_step s rates) = refreshRates s"
proof (induction rates arbitrary: s)
  case Nil
  then show ?case by simp
next
  case (Cons r rates)
  obtain w ms where r: "r = (w, ms)" by (cases r)
  from Cons.prems r have wfresh: "w \<notin> fst ` set (intervals s)" by auto
  then have mo: "map_of (intervals s) w = None" by (simp add: map_of_eq_None_iff)
  show ?case
  proof (cases "ms > 0")
    case False
    then have st: "start_step s r = s" by (simp add: start_step_def r)
    from Cons.prems have "distinct (map fst rates)" "fst ` set rates \<inter> fst ` set (intervals s) = {}" by auto
    from Cons.IH[OF Cons.prems(1) this] False r st show ?thesis by simp
  next
    case True
    define s' where "s' = start_step s r"
    have s': "s' = s\<lparr>liveTimers := liveTimers s @ [(Suc (timerCount s), w, ms)],
                     timerCount := Suc (timerCount s),
                     intervals := intervals s @ [(w, Suc (timerCount s))]\<rparr>"
      using True Cons.prems(1) mo wfresh
      by (simp add: s'_def start_step_def r startWidgetRefresh_def stopWidgetRefresh_def
            setInterval_def update_fresh_key)
    have on': "isOnline s'" using Cons.prems(1) by (simp add: s')
    have d': "distinct (map fst rates)" using Cons.prems(2) by simp
    have f': "fst ` set rates \<inter> fst ` set (intervals s') = {}"
      using Cons.prems(2,3) r by (auto simp: s')
    from Cons.IH[OF on' d' f'] obtain new where
      n: "liveTimers (foldl start_step s' rates) = liveTimers s' @ new"
         "intervals (foldl start_step s' rates) = intervals s' @ map (\<lambda>t. (fst (snd t), fst t)) new"
         "map snd new = filter (\<lambda>r. snd r > 0) rates"
         "isOnline (foldl start_step s' rates)"
         "refreshRates (foldl start_step s' rates) = refreshRates s'" by blast
    have "foldl start_step s (r # rates) = foldl start_step s' rates" by (simp add: s'_def)
    with n True r show ?thesis
      by (intro exI[of _ "(Suc (timerCount s), w, ms) # new"]) (simp add: s')
  qed
qed

lemma start_loop_offline:
  "\<not> isOnline s \<Longrightarrow> fst ` set rates \<inter> fst ` set (intervals s) = {} \<Longrightarrow>
   foldl start_step s rates = s"
proof (induction rates arbitrary: s)
  case Nil
  then show ?case by simp
next
  case (Cons r rates)
  obtain w ms where r: "r = (w, ms)" by (cases r)
  from Cons.prems r have "w \<notin> fst ` set (intervals s)" by auto
  then have mo: "map_of (intervals s) w = None" by (simp add: map_of_eq_None_iff)
  with Cons.prems(1) have "start_step s r = s"
    by (simp add: start_step_def r startWidgetRefresh_def stopWidgetRefresh_def)
  with Cons show ?case by auto
qed

lemma startAutoRefresh_step: "startAutoRefresh s = foldl start_step s (refreshRates s)"
  by (simp add: startAutoRefresh_def)
lemma pause_clears_recorded:
  assumes "fst ` set (liveTimers s) \<subseteq> snd ` set (intervals s)"
  shows "liveTimers (pauseAutoRefresh s) = []"
proof -
  from assms have "\<forall>t \<in> set (liveTimers s). \<not> (fst t \<notin> snd ` set (intervals s))" by auto
  then show ?thesis by (simp add: pause_fields(1) filter_empty_conv)
qed

lemma resume_after_pause:
  assumes "fst ` set (liveTimers s) \<subseteq> snd ` set (intervals s)"
      and "distinct (map fst (refreshRates s))"
  shows "map snd (liveTimers (resumeAutoRefresh (pauseAutoRefresh s))) =
           (if isOnline s then configured_timers s else [])"
proof -
  define p where "p = (pauseAutoRefresh s)\<lparr>intervals := []\<rparr>"
  have p: "liveTimers p = []" "intervals p = []" "isOnline p = isOnline s"
          "refreshRates p = refreshRates s"
    using pause_clears_recorded[OF assms(1)] by (simp_all add: p_def pause_fields)
  have r: "resumeAutoRefresh (pauseAutoRefresh s) = foldl start_step p (refreshRates s)"
    by (simp add: resumeAutoRefresh_def startAutoRefresh_step p_def pause_fields)
  show ?thesis
  proof (cases "isOnline s")
    case True
    with p have "isOnline p" by simp
    from start_loop_online[OF this assms(2), of ] p obtain new where
      "liveTimers (foldl start_step p (refreshRates s)) = liveTimers p @ new"
      "map snd new = filter (\<lambda>r. snd r > 0) (refreshRates s)"
      by auto
    with p r True show ?thesis by (simp add: configured_timers_def)
  next
    case False
    with p have "\<not> isOnline p" by simp
    from start_loop_offline[OF this, of "refreshRates s"] p have "foldl start_step p (refreshRates s) = p"
      by simp
    with r p False show ?thesis by simp
  qed
qed

lemma start_from_clean:
  assumes "liveTimers s0 = []" "intervals s0 = []" "distinct (map fst (refreshRates s0))"
  shows "fst ` set (liveTimers (startAutoRefresh s0)) \<subseteq> snd ` set (intervals (startAutoRefresh s0))
         \<and> refreshRates (startAutoRefresh s0) = refreshRates s0
         \<and> isOnline (startAutoRefresh s0) = isOnline s0
         \<and> map snd (liveTimers (startAutoRefresh s0)) = (if isOnline s0 then configured_timers s0 else [])"
proof (cases "isOnline s0")
  case True
  from start_loop_online[OF True assms(3)] assms(1,2) obtain new where n:
    "liveTimers (foldl start_step s0 (refreshRates s0)) = new"
    "intervals (foldl start_step s0 (refreshRates s0)) = map (\<lambda>t. (fst (snd t), fst t)) new"
    "map snd new = filter (\<lambda>r. snd r > 0) (refreshRates s0)"
    "isOnline (foldl start_step s0 (refreshRates s0))"
    "refreshRates (foldl start_step s0 (refreshRates s0)) = refreshRates s0"
    by auto
  have "fst ` set new \<subseteq> snd ` set (map (\<lambda>t. (fst (snd t), fst t)) new)" by force
  with n True show ?thesis by (simp add: startAutoRefresh_step configured_timers_def)
next
  case False
  from start_loop_offline[OF False, of "refreshRates s0"] assms(2)
  have "startAutoRefresh s0 = s0" by (simp add: startAutoRefresh_step)
  with False assms(1) show ?thesis by simp
qed

lemmas rt_eval = active_timers_def rt_tasks_stopped_def startAutoRefresh_def start_step_def
  new_RealtimeService_def
  startWidgetRefresh_def stopWidgetRefresh_def setInterval_def clearInterval_def
  resumeAutoRefresh_def pauseAutoRefresh_def configured_timers_def


text \<open>
  C3 as stated fails: after \<open>stopWidgetRefresh('tasks')\<close> the tasks widget has no
  timer, and its rate is still configured. \<open>pauseAutoRefresh\<close> followed by
  \<open>resumeAutoRefresh\<close> starts a timer for it, so the set of active timers is not the
  one before the pause.
\<close>

theorem pause_resume_restarts_stopped_timer:
  "(''tasks'', 300000) \<notin> active_timers rt_tasks_stopped
   \<and> (''tasks'', 300000) \<in> active_timers (resumeAutoRefresh (pauseAutoRefresh rt_tasks_stopped))
   \<and> active_timers (resumeAutoRefresh (pauseAutoRefresh rt_tasks_stopped)) \<noteq> active_timers rt_tasks_stopped"
proof -
  have a: "(''tasks'', 300000) \<notin> active_timers rt_tasks_stopped" by (simp add: rt_eval)
  have b: "(''tasks'', 300000) \<in> active_timers (resumeAutoRefresh (pauseAutoRefresh rt_tasks_stopped))"
    by (simp add: rt_eval)
  from a b show ?thesis by metis
qed


text \<open>
  C3, amended. In a state where every live timer is recorded in \<open>intervals\<close>,
  \<open>pauseAutoRefresh\<close> cancels every live timer and leaves the configured rates as
  they are, and \<open>resumeAutoRefresh\<close> after it starts, when the service is online,
  exactly one timer for every configured widget with a positive rate, at that rate, and
  none when it is offline, whatever timers were active before the pause. The timers
  before the pause are restored when they were those started by \<open>startAutoRefresh\<close>
  from the same configuration.
\<close>

theorem pause_resume_timers:
  "(fst ` set (liveTimers s) \<subseteq> snd ` set (intervals s) \<and> distinct (map fst (refreshRates s)) \<longrightarrow>
      liveTimers (pauseAutoRefresh s) = []
      \<and> refreshRates (pauseAutoRefresh s) = refreshRates s
      \<and> map snd (liveTimers (resumeAutoRefresh (pauseAutoRefresh s))) =
           (if isOnline s then configured_timers s else []))
   \<and> (liveTimers s0 = [] \<and> intervals s0 = [] \<and> distinct (map fst (refreshRates s0)) \<longrightarrow>
      active_timers (resumeAutoRefresh (pauseAutoRefresh (startAutoRefresh s0))) =
        active_timers (startAutoRefresh s0))"
proof -
  have a: "fst ` set (liveTimers s) \<subseteq> snd ` set (intervals s) \<and> distinct (map fst (refreshRates s)) \<longrightarrow>
      liveTimers (pauseAutoRefresh s) = []
      \<and> refreshRates (pauseAutoRefresh s) = refreshRates s
      \<and> map snd (liveTimers (resumeAutoRefresh (pauseAutoRefresh s))) =
           (if isOnline s then configured_timers s else [])"
    using pause_clears_recorded[of s] resume_after_pause[of s] pause_fields(4)[of s] by blast
  have b: "liveTimers s0 = [] \<and> intervals s0 = [] \<and> distinct (map fst (refreshRates s0)) \<longrightarrow>
      active_timers (resumeAutoRefresh (pauseAutoRefresh (startAutoRefresh s0))) =
        active_timers (startAutoRefresh s0)"
  proof
    assume h: "liveTimers s0 = [] \<and> intervals s0 = [] \<and> distinct (map fst (refreshRates s0))"
    then have c: "fst ` set (liveTimers (startAutoRefresh s0)) \<subseteq> snd ` set (intervals (startAutoRefresh s0))"
      "refreshRates (startAutoRefresh s0) = refreshRates s0"
      "isOnline (startAutoRefresh s0) = isOnline s0"
      "map snd (liveTimers (startAutoRefresh s0)) = (if isOnline s0 then configured_timers s0 else [])"
      using start_from_clean[of s0] by simp_all
    from h c(2) have d: "distinct (map fst (refreshRates (startAutoRefresh s0)))" by simp
    from resume_after_pause[OF c(1) d] c
    have "map snd (liveTimers (resumeAutoRefresh (pauseAutoRefresh (startAutoRefresh s0)))) =
          map snd (liveTimers (startAutoRefresh s0))"
      by (simp add: configured_timers_def)
    then show "active_timers (resumeAutoRefresh (pauseAutoRefresh (startAutoRefresh s0))) =
        active_timers (startAutoRefresh s0)"
      by (simp add: active_timers_def)
  qed
  from a b show ?thesis by blast
qed


text \<open>
  C3, amended, on the service with the tasks timer stopped and on the service as
  constructed online.
\<close>

theorem pause_resume_timers_witness:
  "fst ` set (liveTimers rt_tasks_stopped) \<subseteq> snd ` set (intervals rt_tasks_stopped)
   \<and> distinct (map fst (refreshRates rt_tasks_stopped))
   \<and> liveTimers (new_RealtimeService True) = [] \<and> intervals (new_RealtimeService True) = []
   \<and> distinct (map fst (refreshRates (new_RealtimeService True)))
   \<and> liveTimers (pauseAutoRefresh rt_tasks_stopped) = []
   \<and> map snd (liveTimers (resumeAutoRefresh (pauseAutoRefresh rt_tasks_stopped))) =
        [(''announcements'', 600000), (''tasks'', 300000), (''calendar'', 600000), (''tickets'', 300000)]
   \<and> active_timers (resumeAutoRefresh (pauseAutoRefresh (startAutoRefresh (new_RealtimeService True)))) =
        active_timers (startAutoRefresh (new_RealtimeService True))"
  using pause_resume_timers[of rt_tasks_stopped "new_RealtimeService True"]
  by (simp add: rt_eval)

section \<open>Properties of the storage gateway\<close>

lemmas storage_eval = getItem_def setItem_def new_StorageService_def Let_def


text \<open>
  C4 at the failing input: the in-memory fallback is in use and the value stored is
  \<open>false\<close>, \<open>0\<close> or the empty string. \<open>setItem\<close> returns true, and \<open>getItem\<close>
  returns null, since \<open>memoryStorage.get(fullKey) || null\<close> replaces every falsy value
  by null.
\<close>

theorem memory_fallback_loses_falsy_values:
  "fst (setItem h (new_StorageService False Map.empty) ''k'' (JBool False))
   \<and> fst (getItem h (snd (setItem h (new_StorageService False Map.empty) ''k'' (JBool False))) ''k'') = JNull
   \<and> fst (getItem h (snd (setItem h (new_StorageService False Map.empty) ''k'' (JNum 0))) ''k'') = JNull
   \<and> fst (getItem h (snd (setItem h (new_StorageService False Map.empty) ''k'' (JStr []))) ''k'') = JNull"
  by (simp add: storage_eval)

text \<open>
  The parts of C4 that hold: the round trip through \<open>localStorage\<close> when
  \<open>JSON.parse\<close> inverts \<open>JSON.stringify\<close> on the value and the store accepts it, the
  round trip through the fallback for truthy values, null for a key that was never set,
  and null for a stored string that does not parse.
\<close>

lemma localStorage_roundtrip:
  "isLocalStorageAvailable s \<Longrightarrow> parse h (stringify h v) = Some v \<Longrightarrow> stringify h v \<noteq> [] \<Longrightarrow>
   accepts h (prefix s @ k) (stringify h v) \<Longrightarrow>
   fst (setItem h s k v) \<and> fst (getItem h (snd (setItem h s k v)) k) = v"
  by (simp add: storage_eval)

lemma memoryStorage_roundtrip:
  "\<not> isLocalStorageAvailable s \<Longrightarrow>
   fst (setItem h s k v) \<and> fst (getItem h (snd (setItem h s k v)) k) = (if truthy v then v else JNull)"
  by (simp add: storage_eval)

lemma getItem_unset:
  "localStorage s (prefix s @ k) = None \<Longrightarrow> memoryStorage s (prefix s @ k) = None \<Longrightarrow>
   fst (getItem h s k) = JNull"
  by (simp add: storage_eval)

lemma getItem_corrupt:
  "isLocalStorageAvailable s \<Longrightarrow> localStorage s (prefix s @ k) = Some item \<Longrightarrow> parse h item = None \<Longrightarrow>
   fst (getItem h s k) = JNull"
  by (simp add: storage_eval)

section \<open>Properties of the widget lifecycle\<close>

subsection \<open>refresh when loadData rejects\<close>

lemmas widget_eval = refresh_def refresh_begin_def refresh_resume_def catch_finally_def handleError_def
  showErrorState_def setLoadingState_def set_innerHTML_def classList_add_def render_def Let_def

lemmas tasks_eval = tasks_widget_def tasks_widget_polling_def tasks_element_def new_BaseWidget_def


text \<open>
  \<open>refresh\<close> reaches \<open>await this.loadData()\<close> exactly when the widget is not loading
  and has a container.
\<close>

lemma refresh_begin_suspends:
  "fst (refresh_begin w) = (\<not> isLoading w \<and> container w \<noteq> None)"
  by (cases "container w")
     (simp_all add: refresh_begin_def setLoadingState_def Let_def split: prod.splits)

text \<open>
  C5 at the failing input: the promise of \<open>loadData\<close> rejects with \<open>undefined\<close>
  (or \<open>null\<close>), as after \<open>Promise.reject()\<close>. \<open>handleError\<close> reports the error
  and publishes \<open>widget:error\<close>, then \<open>error.message\<close> throws a TypeError before
  \<open>showErrorState\<close> is called: the container keeps the markup it showed, without an
  error panel or a retry listener, and the promise of \<open>refresh\<close> rejects with the
  TypeError. The event is published once and the loading state is set and cleared.
\<close>

theorem refresh_nullish_rejection:
  "fst (refresh tasks_widget (Rejected Nullish) (Renders ''tasks'')) =
     Some (ErrorObject (TypeError ''Cannot read properties of null (reading message)''))
   \<and> trace (snd (refresh tasks_widget (Rejected Nullish) (Renders ''tasks''))) =
        [SetLoadingState True, LoadDataCalled, LoadDataSettled,
         ConsoleError ''Error in TasksWidget:'',
         Published ''widget:error'' ''TasksWidget'' (Some Nullish),
         SetLoadingState False]
   \<and> map_option content (container (snd (refresh tasks_widget (Rejected Nullish) (Renders ''tasks''))))
        = Some (Markup ''tasks'')
   \<and> map_option retryListeners
         (container (snd (refresh tasks_widget (Rejected Nullish) (Renders ''tasks'')))) = Some 0"
  by (simp add: widget_eval tasks_eval)

text \<open>
  The parts of C5 that hold. For every rejection, when \<open>refresh\<close> has called
  \<open>loadData\<close> (the widget has a container and is not loading), what \<open>refresh\<close> does
  is, in order: \<open>setLoadingState(true)\<close>, the call of \<open>loadData\<close>, the report of
  the error on the console, one \<open>widget:error\<close> event with the name of the widget and
  the error, and \<open>setLoadingState(false)\<close>; the loading flag is off afterwards.
\<close>

lemma refresh_rejects_trace:
  "container w = Some el \<Longrightarrow> \<not> isLoading w \<Longrightarrow>
     trace (snd (refresh w (Rejected error) r)) =
         trace w @ [SetLoadingState True, LoadDataCalled, LoadDataSettled,
                    ConsoleError (''Error in '' @ className w @ '':''),
                    Published ''widget:error'' (className w) (Some error),
                    SetLoadingState False]
     \<and> \<not> isLoading (snd (refresh w (Rejected error) r))"
  by (cases "message_of error") (simp_all add: widget_eval)

text \<open>
  When the value the promise rejects with is not \<open>null\<close> or \<open>undefined\<close>, the call
  of \<open>refresh\<close> does not reject, and the container shows the error panel with the
  message of the error (a default message when it has none) and the retry button, with
  a new listener for \<open>retry\<close> and no loading overlay.
\<close>

lemma refresh_rejects_panel:
  "container w = Some el \<Longrightarrow> \<not> isLoading w \<Longrightarrow> message_of error = Inr m \<Longrightarrow>
     fst (refresh w (Rejected error) r) = None
     \<and> map_option content (container (snd (refresh w (Rejected error) r))) =
         Some (ErrorPanel (if m \<noteq> [] then m else ''An error occurred while loading data''))
     \<and> map_option overlays (container (snd (refresh w (Rejected error) r))) = Some 0
     \<and> map_option retryListeners (container (snd (refresh w (Rejected error) r))) =
         Some (Suc (retryListeners el))"
  by (simp add: widget_eval)

subsection \<open>The guard of refresh\<close>

lemma in_flight_append:
  "in_flight (w\<lparr>trace := trace w @ es\<rparr>) =
     in_flight w + int (count_list es LoadDataCalled) - int (count_list es LoadDataSettled)"
  by (simp add: in_flight_def)

lemma refresh_begin_skip:
  "isLoading w \<Longrightarrow> refresh_begin w =
     (False, None, w\<lparr>trace := trace w @ [ConsoleLog (className w @ '' is already loading, skipping refresh'')]\<rparr>)"
  by (simp add: refresh_begin_def)

lemma catch_finally_trace_counts:
  "count_list (trace (snd (catch_finally (t, w)))) LoadDataCalled = count_list (trace w) LoadDataCalled
   \<and> count_list (trace (snd (catch_finally (t, w)))) LoadDataSettled = count_list (trace w) LoadDataSettled
   \<and> \<not> isLoading (snd (catch_finally (t, w)))"
proof (cases t)
  case None
  then show ?thesis
    by (cases "container w") (simp_all add: catch_finally_def setLoadingState_def Let_def)
next
  case (Some error)
  then show ?thesis
    by (cases "container w"; cases "message_of error")
       (simp_all add: catch_finally_def handleError_def showErrorState_def setLoadingState_def
          set_innerHTML_def Let_def)
qed

lemma catch_finally_in_flight:
  "in_flight (snd (catch_finally (t, w))) = in_flight w \<and> \<not> isLoading (snd (catch_finally (t, w)))"
  using catch_finally_trace_counts[of t w] by (simp add: in_flight_def)

lemma refresh_begin_inv: "refresh_inv w \<Longrightarrow> refresh_inv (snd (snd (refresh_begin w)))"
proof (cases "isLoading w")
  case True
  assume "refresh_inv w"
  with True show ?thesis by (simp add: refresh_begin_skip refresh_inv_def in_flight_def)
next
  case False
  assume inv: "refresh_inv w"
  with False have z: "in_flight w = 0" by (auto simp: refresh_inv_def)
  show ?thesis
  proof (cases "container w")
    case None
    then have sl: "setLoadingState w True =
        (Some (ErrorObject (TypeError ''container is null'')), w\<lparr>isLoading := True, trace := trace w @ [SetLoadingState True]\<rparr>)"
      by (simp add: setLoadingState_def Let_def)
    have "in_flight (w\<lparr>isLoading := True, trace := trace w @ [SetLoadingState True]\<rparr>) = 0"
      using z by (simp add: in_flight_def)
    with catch_finally_in_flight[of "Some (ErrorObject (TypeError ''container is null''))"
          "w\<lparr>isLoading := True, trace := trace w @ [SetLoadingState True]\<rparr>"]
    show ?thesis using False sl
      by (simp add: refresh_begin_def refresh_inv_def split: prod.splits)
  next
    case (Some el)
    with False z show ?thesis
      by (simp add: refresh_begin_def setLoadingState_def Let_def refresh_inv_def in_flight_def)
  qed
qed

lemma render_in_flight: "in_flight (snd (render r w)) = in_flight w"
  by (cases r; cases "container w") (simp_all add: render_def in_flight_def set_innerHTML_def)

lemma refresh_resume_inv:
  assumes inv: "refresh_inv w" and pos: "in_flight w > 0"
  shows "refresh_inv (snd (refresh_resume r w outcome))"
proof -
  from inv pos have one: "in_flight w = 1" by (simp add: refresh_inv_def)
  define w1 where "w1 = w\<lparr>trace := trace w @ [LoadDataSettled]\<rparr>"
  have z: "in_flight w1 = 0" using one by (simp add: w1_def in_flight_def)
  have fin: "\<And>t w2. in_flight w2 = 0 \<Longrightarrow> refresh_inv (snd (catch_finally (t, w2)))"
    using catch_finally_in_flight by (simp add: refresh_inv_def)
  show ?thesis
  proof (cases outcome)
    case (Rejected error)
    then have "refresh_resume r w outcome = catch_finally (Some error, w1)"
      by (simp add: refresh_resume_def w1_def)
    with fin[OF z] show ?thesis by simp
  next
    case Resolved
    obtain t w2 where rr: "render r w1 = (t, w2)" by (cases "render r w1")
    with render_in_flight[of r w1] z have z2: "in_flight w2 = 0" by simp
    show ?thesis
    proof (cases t)
      case None
      have z3: "in_flight (w2\<lparr>trace := trace w2 @ [Published ''widget:refreshed'' (className w2) None]\<rparr>) = 0"
        using z2 by (simp add: in_flight_def)
      from Resolved rr None
      have "refresh_resume r w outcome =
              catch_finally (None, w2\<lparr>trace := trace w2 @ [Published ''widget:refreshed'' (className w2) None]\<rparr>)"
        by (simp add: refresh_resume_def w1_def)
      with fin[OF z3] show ?thesis by simp
    next
      case (Some error)
      from Resolved rr Some
      have "refresh_resume r w outcome = catch_finally (Some error, w2)"
        by (simp add: refresh_resume_def w1_def)
      with fin[OF z2] show ?thesis by simp
    qed
  qed
qed

lemma widget_step_inv: "refresh_inv w \<Longrightarrow> refresh_inv (widget_step w ev)"
  by (cases ev) (simp_all add: refresh_begin_inv refresh_resume_inv)

lemma widget_run_inv: "refresh_inv w \<Longrightarrow> refresh_inv (foldl widget_step w evs)"
  by (induction evs arbitrary: w) (simp_all add: widget_step_inv)


text \<open>
  C6. Whatever calls of \<open>refresh\<close> and settlements of \<open>loadData\<close> happen to a new
  widget, in any order, at most one call of \<open>loadData\<close> is in flight at any moment,
  and the loading flag is set while one is. A call of \<open>refresh\<close> on a widget whose
  loading flag is set writes one line to the console and does nothing else: it does not
  call \<open>loadData\<close> and does not reject.
\<close>

theorem refresh_guard:
  "in_flight (foldl widget_step (new_BaseWidget n c) evs) \<le> 1
   \<and> (in_flight (foldl widget_step (new_BaseWidget n c) evs) = 1 \<longrightarrow>
        isLoading (foldl widget_step (new_BaseWidget n c) evs))
   \<and> (isLoading w \<longrightarrow>
        refresh_begin w =
          (False, None,
           w\<lparr>trace := trace w @ [ConsoleLog (className w @ '' is already loading, skipping refresh'')]\<rparr>))"
proof -
  have "refresh_inv (new_BaseWidget n c)"
    by (simp add: refresh_inv_def new_BaseWidget_def in_flight_def)
  then have "refresh_inv (foldl widget_step (new_BaseWidget n c) evs)" by (rule widget_run_inv)
  then show ?thesis using refresh_begin_skip[of w] by (simp add: refresh_inv_def)
qed

text \<open>C6 on the tasks widget: a second call of \<open>refresh\<close> while the first awaits.\<close>

theorem refresh_guard_witness:
  "isLoading (widget_step tasks_widget RefreshCalled)
   \<and> in_flight (foldl widget_step tasks_widget [RefreshCalled, RefreshCalled]) = 1
   \<and> isLoading (foldl widget_step tasks_widget [RefreshCalled, RefreshCalled])
   \<and> trace (foldl widget_step tasks_widget [RefreshCalled, RefreshCalled]) =
        [SetLoadingState True, LoadDataCalled,
         ConsoleLog ''TasksWidget is already loading, skipping refresh'']"
  using refresh_guard[of "''TasksWidget''" "Some tasks_element" "[RefreshCalled, RefreshCalled]"
          "widget_step tasks_widget RefreshCalled"]
  by (simp add: tasks_eval widget_eval in_flight_def)

subsection \<open>destroy\<close>

lemmas timer_eval = stopAutoRefresh_def widget_startAutoRefresh_def setAutoRefreshInterval_def
  setAutoRefresh_def destroy_def set_innerHTML_def Let_def

lemma removeAll_only: "set xs \<subseteq> {t} \<Longrightarrow> removeAll t xs = []"
  by (induction xs) auto

lemma stop_clears: "timers_recorded w \<Longrightarrow> widgetTimers (stopAutoRefresh w) = []"
  by (cases "refreshInterval w") (simp_all add: timers_recorded_def stopAutoRefresh_def removeAll_only)

lemma stop_recorded: "timers_recorded w \<Longrightarrow> timers_recorded (stopAutoRefresh w)"
  using stop_clears[of w] by (simp add: timers_recorded_def)

lemma start_recorded:
  assumes "timers_recorded w"
  shows "timers_recorded (widget_startAutoRefresh w)"
proof (cases "refreshInterval w")
  case None
  with assms have "widgetTimers w = []" by (simp add: timers_recorded_def)
  with None show ?thesis by (simp add: widget_startAutoRefresh_def Let_def timers_recorded_def)
next
  case (Some t)
  from stop_clears[OF assms] Some have "removeAll t (widgetTimers w) = []"
    by (simp add: stopAutoRefresh_def)
  with Some show ?thesis
    by (simp add: widget_startAutoRefresh_def stopAutoRefresh_def Let_def timers_recorded_def)
qed

lemma timers_recorded_fields:
  "timers_recorded (w\<lparr>refreshIntervalMs := m\<rparr>) = timers_recorded w"
  "timers_recorded (w\<lparr>autoRefreshEnabled := e\<rparr>) = timers_recorded w"
  "timers_recorded (w\<lparr>trace := tr\<rparr>) = timers_recorded w"
  by (simp_all add: timers_recorded_def)

lemma timer_step_recorded:
  assumes "timers_recorded w"
  shows "timers_recorded (timer_step w tc)"
proof (cases tc)
  case StartAutoRefresh
  with assms show ?thesis by (simp add: start_recorded)
next
  case StopAutoRefresh
  with assms show ?thesis by (simp add: stop_recorded)
next
  case (SetAutoRefreshInterval m)
  from assms have r: "timers_recorded (w\<lparr>refreshIntervalMs := m\<rparr>)"
    by (simp add: timers_recorded_fields)
  have "timers_recorded (widget_startAutoRefresh (stopAutoRefresh (w\<lparr>refreshIntervalMs := m\<rparr>)))"
    by (rule start_recorded, rule stop_recorded, rule r)
  with r SetAutoRefreshInterval show ?thesis
    by (simp add: setAutoRefreshInterval_def Let_def)
next
  case (SetAutoRefresh e)
  from assms have r: "timers_recorded (w\<lparr>autoRefreshEnabled := e\<rparr>)"
    by (simp add: timers_recorded_fields)
  from r have "timers_recorded (widget_startAutoRefresh (w\<lparr>autoRefreshEnabled := e\<rparr>))"
    and "timers_recorded (stopAutoRefresh (w\<lparr>autoRefreshEnabled := e\<rparr>))"
    by (rule start_recorded, rule stop_recorded)
  with SetAutoRefresh show ?thesis
    by (cases e) (simp_all add: setAutoRefresh_def Let_def)
qed

lemma timer_run_recorded: "timers_recorded w \<Longrightarrow> timers_recorded (foldl timer_step w calls)"
  by (induction calls arbitrary: w) (simp_all add: timer_step_recorded)

lemma destroy_fields:
  "refreshInterval (destroy w) = None"
  "widgetTimers (destroy w) = widgetTimers (stopAutoRefresh w)"
  "container (destroy w) = map_option (\<lambda>el. set_innerHTML el Blank) (container w)"
  "\<not> isInitialized (destroy w)"
  by (cases "refreshInterval w"; cases "container w"; simp add: destroy_def stopAutoRefresh_def Let_def)+

lemma destroy_twice:
  "destroy (destroy w) = (destroy w)\<lparr>trace := trace (destroy w) @ [ConsoleLog (''Destroying '' @ className w)]\<rparr>"
  by (cases "refreshInterval w"; cases "container w")
     (simp_all add: destroy_def stopAutoRefresh_def Let_def set_innerHTML_def)


text \<open>
  C9. After \<open>destroy\<close> the widget records no timer, the timer it recorded before is
  not live, and its container, when it has one, has no content and no overlay. A second
  call changes nothing but the console, so the same holds after it. For a widget whose
  timer was only started and stopped through its own methods, no timer of the widget is
  live after \<open>destroy\<close>. \<open>destroy\<close> has no exception among its results.
\<close>

theorem destroy_idempotent:
  "refreshInterval (destroy w) = None
   \<and> (\<forall>timer. refreshInterval w = Some timer \<longrightarrow> timer \<notin> set (widgetTimers (destroy w)))
   \<and> (\<forall>el. container (destroy w) = Some el \<longrightarrow> content el = Blank \<and> overlays el = 0)
   \<and> destroy (destroy w) =
        (destroy w)\<lparr>trace := trace (destroy w) @ [ConsoleLog (''Destroying '' @ className w)]\<rparr>
   \<and> refreshInterval (destroy (destroy w)) = None
   \<and> (\<forall>el. container (destroy (destroy w)) = Some el \<longrightarrow> content el = Blank \<and> overlays el = 0)
   \<and> widgetTimers (destroy (foldl timer_step (new_BaseWidget n c) calls)) = []
   \<and> widgetTimers (destroy (destroy (foldl timer_step (new_BaseWidget n c) calls))) = []"
proof -
  have a: "\<forall>timer. refreshInterval w = Some timer \<longrightarrow> timer \<notin> set (widgetTimers (destroy w))"
    by (auto simp: destroy_fields stopAutoRefresh_def)
  have b: "\<And>w. \<forall>el. container (destroy w) = Some el \<longrightarrow> content el = Blank \<and> overlays el = 0"
    by (auto simp: destroy_fields set_innerHTML_def)
  have "timers_recorded (new_BaseWidget n c)" by (simp add: timers_recorded_def new_BaseWidget_def)
  then have r: "timers_recorded (foldl timer_step (new_BaseWidget n c) calls)" by (rule timer_run_recorded)
  then have c: "widgetTimers (destroy (foldl timer_step (new_BaseWidget n c) calls)) = []"
    by (simp add: destroy_fields stop_clears)
  have "widgetTimers (destroy (destroy (foldl timer_step (new_BaseWidget n c) calls))) =
        widgetTimers (destroy (foldl timer_step (new_BaseWidget n c) calls))"
    by (simp add: destroy_twice)
  with c have d: "widgetTimers (destroy (destroy (foldl timer_step (new_BaseWidget n c) calls))) = []"
    by simp
  show ?thesis using a b[of w] b[of "destroy w"] c d destroy_twice[of w] destroy_fields(1) by blast
qed


text \<open>C9 on the tasks widget with its timer running.\<close>

theorem destroy_idempotent_witness:
  "refreshInterval tasks_widget_polling = Some 1
   \<and> widgetTimers tasks_widget_polling = [1]
   \<and> container (destroy tasks_widget_polling) =
        Some (\<lparr>classList = [''widget''], content = Blank, overlays = 0, retryListeners = 0\<rparr>)
   \<and> 1 \<notin> set (widgetTimers (destroy tasks_widget_polling))
   \<and> content \<lparr>classList = [''widget''], content = Blank, overlays = 0, retryListeners = 0\<rparr> = Blank
   \<and> container (destroy (destroy tasks_widget_polling)) =
        Some (\<lparr>classList = [''widget''], content = Blank, overlays = 0, retryListeners = 0\<rparr>)
   \<and> refreshInterval (destroy (destroy tasks_widget_polling)) = None"
  using destroy_idempotent[of tasks_widget_polling "''TasksWidget''" "Some tasks_element" "[StartAutoRefresh]"]
  by (simp add: tasks_eval timer_eval)


end
